theory Spec2Isabelle
  imports Complex_Main "HOL-Library.Word"
begin

unbundle bit_operations_syntax

section \<open>The cache simulator of spike/riscv/cachesim.cc\<close>

text \<open>
  The embedding follows \<^verbatim>\<open>cachesim.cc\<close> function by function. The header
  \<^verbatim>\<open>cachesim.h\<close> is not among the sources, so what it declares is either a
  parameter of the model or marked below as modelled from the spec:
  \<^item> the generator \<^verbatim>\<open>lfsr_t\<close>: its state is a value of an arbitrary type \<open>'g\<close> and its
    \<^verbatim>\<open>next()\<close> is the parameter \<open>nxt\<close>, returning the draw and the new state;
  \<^item> the next level \<^verbatim>\<open>miss_handler\<close>: the field holds the state \<open>'h\<close> of the object the
    pointer refers to (\<open>None\<close> is the null pointer) and the method
    \<^verbatim>\<open>miss_handler->access\<close> is the parameter \<open>hacc\<close>; a hierarchy is obtained by
    instantiating \<open>hacc\<close> with \<open>access\<close> at the next level;
  \<^item> the flag bits \<^verbatim>\<open>VALID\<close> and \<^verbatim>\<open>DIRTY\<close> and the virtual dispatch of
    \<^verbatim>\<open>check_tag\<close> and \<^verbatim>\<open>victimize\<close>.

  Machine integers: \<^verbatim>\<open>uint64_t\<close> values (addresses, tags, statistics) are \<open>64 word\<close>.
  The stamp arrays are allocated as \<^verbatim>\<open>new int[...]\<close>, so stamps are \<open>32 word\<close> compared as
  signed values; the counters \<^verbatim>\<open>LRUCount\<close> and \<^verbatim>\<open>FIFOCount\<close>, declared in the header,
  are given the same type \<^verbatim>\<open>int\<close> as the stamps they are copied into. The
  \<^verbatim>\<open>size_t\<close> geometry (\<open>sets\<close>, \<open>ways\<close>, \<open>linesz\<close>) and the array indices are
  \<open>nat\<close>; the predicate \<open>wf\<close> bounds them so that no index computation wraps.
  The fields \<^verbatim>\<open>name\<close> and \<^verbatim>\<open>log\<close> only label and switch text written to the
  terminal and are left out.
\<close>

subsection \<open>Data\<close>

text \<open>
  Modelled from the spec: \<^verbatim>\<open>VALID\<close> and \<^verbatim>\<open>DIRTY\<close> are declared in cachesim.h, which
  is missing. The spec (section 3) says valid and dirty are two reserved flag bits packed
  into the same word as the tag; they are taken to be the two top bits of the 64-bit word.
\<close>

definition VALID :: "64 word" where
  "VALID = push_bit 63 1"

definition DIRTY :: "64 word" where
  "DIRTY = push_bit 62 1"

text \<open>
  How the process can stop abnormally: \<^verbatim>\<open>help()\<close> prints the usage text to the error
  stream and calls \<^verbatim>\<open>exit(1)\<close>; \<^verbatim>\<open>*check_tag(addr) |= DIRTY\<close> dereferences a null
  pointer when the lookup fails; an array expression \<^verbatim>\<open>new T[n]()\<close> throws
  \<^verbatim>\<open>std::bad_array_new_length\<close> or \<^verbatim>\<open>std::bad_alloc\<close>, which nothing catches, so the
  process is aborted.
\<close>

datatype fault = Exit nat "string list" | NullDeref | AllocFailed

text \<open>
  The object state. \<open>tags\<close> is the array \<^verbatim>\<open>cache_sim_t::tags\<close>. \<open>fa_tags\<close> is \<open>None\<close>
  for a plain \<^verbatim>\<open>cache_sim_t\<close> and \<open>Some m\<close> for an \<^verbatim>\<open>fa_cache_sim_t\<close>, whose member
  \<^verbatim>\<open>tags\<close> (a map from line address to tag word, iterated in key order) is the
  key-sorted association list \<open>m\<close>.
\<close>

record ('g, 'h) cache_sim =
  sets :: nat
  ways :: nat
  linesz :: nat
  idx_shift :: nat
  tags :: "64 word list"
  fa_tags :: "(64 word \<times> 64 word) list option"
  LRUCount :: "32 word"
  FIFOCount :: "32 word"
  LRUTime :: "32 word list"
  FIFOTime :: "32 word list"
  read_accesses :: "64 word"
  read_misses :: "64 word"
  bytes_read :: "64 word"
  write_accesses :: "64 word"
  write_misses :: "64 word"
  bytes_written :: "64 word"
  writebacks :: "64 word"
  lfsr :: 'g
  miss_handler :: "'h option"

text \<open>What \<^verbatim>\<open>check_tag\<close> returns when it is not null: a pointer to an element of the
  array, or to the value of a map entry.\<close>

datatype way_ptr = ArrayWay nat | MapWay "64 word"

subsection \<open>Construction\<close>

text \<open>\<^verbatim>\<open>help()\<close> (the name \<open>help\<close> is a command of Isabelle).\<close>

definition help_exit :: "fault" where
  "help_exit = Exit 1
     [''Cache configurations must be of the form'',
      ''  sets:ways:blocksize'',
      ''where sets, ways, and blocksize are positive integers, with'',
      ''sets and blocksize both powers of two and blocksize at least 8.'']"

text \<open>\<^verbatim>\<open>for (size_t x = linesz; x>1; x >>= 1) idx_shift++;\<close>\<close>

function shift_loop :: "nat \<Rightarrow> nat \<Rightarrow> nat" where
  "shift_loop x s = (if x > 1 then shift_loop (drop_bit 1 x) (s + 1) else s)"
  by pat_completeness auto
termination
  by (relation "measure (\<lambda>(x, s). x)") (auto simp: drop_bit_eq_div)

declare shift_loop.simps [simp del]

text \<open>
  The array expression \<^verbatim>\<open>new T[n]()\<close> with \<open>sz\<close> the size of \<^verbatim>\<open>T\<close> in bytes (4 for
  \<^verbatim>\<open>int\<close>, 8 for \<^verbatim>\<open>uint64_t\<close>). It throws when the number of bytes cannot be
  represented in a \<^verbatim>\<open>size_t\<close>, and when the allocator of the host refuses the request.
  What the host grants is not in the source: it is the parameter \<open>grant\<close>, where
  \<open>grant i b\<close> says whether the \<open>i\<close>-th request of the constructor, for \<open>b\<close> bytes, is
  granted. A granted array has \<open>n\<close> elements, all zero.
\<close>

definition new_array :: "(nat \<Rightarrow> nat \<Rightarrow> bool) \<Rightarrow> nat \<Rightarrow> nat \<Rightarrow> nat \<Rightarrow> fault + ('a :: zero) list" where
  "new_array grant i sz n =
     (if 2 ^ 64 \<le> n * sz \<or> \<not> grant i (n * sz) then Inl AllocFailed
      else Inr (replicate n 0))"

text \<open>
  \<^verbatim>\<open>cache_sim_t::init\<close>, run by the constructor on the three sizes. The arrays have
  \<^verbatim>\<open>sets*ways\<close> elements, a \<^verbatim>\<open>size_t\<close> product (it wraps at 64 bits); they are allocated
  in the order \<^verbatim>\<open>LRUTime\<close>, \<^verbatim>\<open>FIFOTime\<close>, \<^verbatim>\<open>tags\<close>, after the two tests of the
  geometry. \<open>g\<close> is the state of the default-constructed generator.
\<close>

definition init_alloc :: "(nat \<Rightarrow> nat \<Rightarrow> bool) \<Rightarrow> nat \<Rightarrow> nat \<Rightarrow> nat \<Rightarrow> 'g \<Rightarrow> fault + ('g, 'h) cache_sim" where
  "init_alloc grant s w l g =
     (if s = 0 \<or> s AND (s - 1) \<noteq> 0 then Inl help_exit
      else if l < 8 \<or> l AND (l - 1) \<noteq> 0 then Inl help_exit
      else case new_array grant 0 4 (unat (of_nat s * of_nat w :: 64 word)) of
        Inl e \<Rightarrow> Inl e
      | Inr lru_time \<Rightarrow>
     (case new_array grant 1 4 (unat (of_nat s * of_nat w :: 64 word)) of
        Inl e \<Rightarrow> Inl e
      | Inr fifo_time \<Rightarrow>
     (case new_array grant 2 8 (unat (of_nat s * of_nat w :: 64 word)) of
        Inl e \<Rightarrow> Inl e
      | Inr tag_array \<Rightarrow>
          Inr \<lparr> sets = s, ways = w, linesz = l,
                 idx_shift = shift_loop l 0,
                 tags = tag_array,
                 fa_tags = None,
                 LRUCount = 0, FIFOCount = 0,
                 LRUTime = lru_time,
                 FIFOTime = fifo_time,
                 read_accesses = 0, read_misses = 0, bytes_read = 0,
                 write_accesses = 0, write_misses = 0, bytes_written = 0,
                 writebacks = 0,
                 lfsr = g, miss_handler = None \<rparr>)))"

text \<open>
  \<^verbatim>\<open>init\<close> on a host that grants every request: the only allocation that fails is one
  whose size in bytes cannot be represented. The runs of the small geometries below are
  stated with it.
\<close>

definition init :: "nat \<Rightarrow> nat \<Rightarrow> nat \<Rightarrow> 'g \<Rightarrow> fault + ('g, 'h) cache_sim" where
  "init s w l g = init_alloc (\<lambda>i b. True) s w l g"

text \<open>\<^verbatim>\<open>fa_cache_sim_t::fa_cache_sim_t\<close>: the base object with one set, and an empty map.\<close>

definition fa_init :: "nat \<Rightarrow> nat \<Rightarrow> 'g \<Rightarrow> fault + ('g, 'h) cache_sim" where
  "fa_init w l g =
     (case init 1 w l g of
        Inl e \<Rightarrow> Inl e
      | Inr c \<Rightarrow> Inr (c\<lparr>fa_tags := Some []\<rparr>))"

text \<open>
  The end of \<^verbatim>\<open>cache_sim_t::construct\<close>, after the configuration string has been split
  into its numbers and the policy character stored in the global \<^verbatim>\<open>policy\<close>: the
  choice between the two classes, on a host that grants every request. The string
  handling before it is not modelled.
\<close>

definition construct :: "nat \<Rightarrow> nat \<Rightarrow> nat \<Rightarrow> 'g \<Rightarrow> fault + ('g, 'h) cache_sim" where
  "construct s w l g = (if w > 4 \<and> s = 1 then fa_init w l g else init s w l g)"

subsection \<open>Statistics\<close>

text \<open>
  The miss rate of \<^verbatim>\<open>print_stats\<close>, which prints nothing when there was no access.
  The source computes in \<^verbatim>\<open>float\<close>; the model computes the same quotient exactly.
\<close>

definition miss_rate :: "('g, 'h) cache_sim \<Rightarrow> real option" where
  "miss_rate c =
     (if read_accesses c + write_accesses c = 0 then None
      else Some (100 * real (unat (read_misses c + write_misses c))
                   / real (unat (read_accesses c + write_accesses c))))"

subsection \<open>Address decomposition and the scans over the ways of a set\<close>

text \<open>\<^verbatim>\<open>size_t idx = (addr >> idx_shift) & (sets-1);\<close>\<close>

definition idx_of :: "('g, 'h) cache_sim \<Rightarrow> 64 word \<Rightarrow> nat" where
  "idx_of c addr = unat (drop_bit (idx_shift c) addr AND (of_nat (sets c) - 1))"

text \<open>\<^verbatim>\<open>(addr >> idx_shift) | VALID\<close>\<close>

definition tag_of :: "('g, 'h) cache_sim \<Rightarrow> 64 word \<Rightarrow> 64 word" where
  "tag_of c addr = drop_bit (idx_shift c) addr OR VALID"

text \<open>
  \<^verbatim>\<open>for (size_t i = 0; i < ways; i++) if (P i) { ...; break; }\<close>: the first way from
  \<open>i\<close> on that satisfies the test, if there is one. The loops of \<^verbatim>\<open>check_tag\<close>,
  \<^verbatim>\<open>LRU\<close> and \<^verbatim>\<open>FIFO\<close> that leave at the first match have this shape.
\<close>

function first_way :: "(nat \<Rightarrow> bool) \<Rightarrow> nat \<Rightarrow> nat \<Rightarrow> nat option" where
  "first_way P w i = (if i < w then (if P i then Some i else first_way P w (i + 1)) else None)"
  by pat_completeness auto
termination
  by (relation "measure (\<lambda>(P, w, i). w - i)") auto

declare first_way.simps [simp del]

text \<open>
  The second loop of \<^verbatim>\<open>LRU\<close> and \<^verbatim>\<open>FIFO\<close>: \<open>tm\<close> is the stamp array, \<open>base\<close> is
  \<^verbatim>\<open>idx*ways\<close>, and \<open>way\<close>, \<open>count\<close> are the two locals the loop updates. The
  comparison is the signed one of \<^verbatim>\<open>int\<close>.
\<close>

function oldest_way :: "32 word list \<Rightarrow> nat \<Rightarrow> nat \<Rightarrow> nat \<Rightarrow> nat \<Rightarrow> 32 word \<Rightarrow> nat" where
  "oldest_way tm base w i way count =
     (if i < w then
        (if tm ! (base + i) <s count then oldest_way tm base w (i + 1) i (tm ! (base + i))
         else oldest_way tm base w (i + 1) way count)
      else way)"
  by pat_completeness auto
termination
  by (relation "measure (\<lambda>(tm, base, w, i, way, count). w - i)") auto

declare oldest_way.simps [simp del]

subsection \<open>Tag lookup\<close>

text \<open>
  \<^verbatim>\<open>cache_sim_t::check_tag\<close>. The global \<^verbatim>\<open>policy\<close> is a C string of at most one
  character; \<^verbatim>\<open>!strcmp(policy, "L")\<close> is the equality \<open>policy = ''L''\<close>.
\<close>

definition check_tag :: "string \<Rightarrow> ('g, 'h) cache_sim \<Rightarrow> 64 word \<Rightarrow> way_ptr option \<times> ('g, 'h) cache_sim" where
  "check_tag policy c addr =
     (let idx = idx_of c addr;
          tag = tag_of c addr
      in case first_way (\<lambda>i. tag = (tags c ! (idx * ways c + i)) AND NOT DIRTY) (ways c) 0 of
           Some i \<Rightarrow>
             (Some (ArrayWay (idx * ways c + i)),
              if policy = ''L'' then c\<lparr>LRUTime := (LRUTime c)[idx * ways c + i := LRUCount c]\<rparr> else c)
         | None \<Rightarrow> (None, c))"

text \<open>\<^verbatim>\<open>fa_cache_sim_t::check_tag\<close>: \<^verbatim>\<open>tags.find(addr >> idx_shift)\<close> on the map \<open>m\<close>.\<close>

definition fa_check_tag :: "('g, 'h) cache_sim \<Rightarrow> (64 word \<times> 64 word) list \<Rightarrow> 64 word \<Rightarrow> way_ptr option" where
  "fa_check_tag c m addr =
     (case map_of m (drop_bit (idx_shift c) addr) of
        None \<Rightarrow> None
      | Some v \<Rightarrow> Some (MapWay (drop_bit (idx_shift c) addr)))"

text \<open>
  Modelled from the spec: the declarations of \<^verbatim>\<open>check_tag\<close> and \<^verbatim>\<open>victimize\<close> are in
  cachesim.h, which is missing. The spec (section 9) says the fully-associative variant
  overrides these two operations and that they are dispatched dynamically, so a call made
  by \<^verbatim>\<open>access\<close> runs the method of the object's own class.
\<close>

definition virt_check_tag :: "string \<Rightarrow> ('g, 'h) cache_sim \<Rightarrow> 64 word \<Rightarrow> way_ptr option \<times> ('g, 'h) cache_sim" where
  "virt_check_tag policy c addr =
     (case fa_tags c of
        None \<Rightarrow> check_tag policy c addr
      | Some m \<Rightarrow> (fa_check_tag c m addr, c))"

text \<open>\<^verbatim>\<open>*p |= DIRTY\<close> for a pointer \<open>p\<close> that \<^verbatim>\<open>check_tag\<close> returned.\<close>

definition or_dirty :: "way_ptr \<Rightarrow> ('g, 'h) cache_sim \<Rightarrow> ('g, 'h) cache_sim" where
  "or_dirty p c =
     (case p of
        ArrayWay j \<Rightarrow> c\<lparr>tags := (tags c)[j := tags c ! j OR DIRTY]\<rparr>
      | MapWay k \<Rightarrow>
          c\<lparr>fa_tags := map_option (map (\<lambda>(k', v). if k' = k then (k', v OR DIRTY) else (k', v))) (fa_tags c)\<rparr>)"

subsection \<open>Victim selection\<close>

text \<open>\<^verbatim>\<open>cache_sim_t::victimize\<close>: the way is the generator's draw modulo \<^verbatim>\<open>ways\<close>.\<close>

definition victimize :: "('g \<Rightarrow> nat \<times> 'g) \<Rightarrow> ('g, 'h) cache_sim \<Rightarrow> 64 word \<Rightarrow> 64 word \<times> ('g, 'h) cache_sim" where
  "victimize nxt c addr =
     (let idx = idx_of c addr;
          (r, g) = nxt (lfsr c);
          way = r mod ways c;
          victim = tags c ! (idx * ways c + way)
      in (victim, c\<lparr>lfsr := g, tags := (tags c)[idx * ways c + way := tag_of c addr]\<rparr>))"

text \<open>\<^verbatim>\<open>tags[k] = v\<close> on the map: the entry is replaced, or inserted in key order.\<close>

fun map_store :: "64 word \<Rightarrow> 64 word \<Rightarrow> (64 word \<times> 64 word) list \<Rightarrow> (64 word \<times> 64 word) list" where
  "map_store k v [] = [(k, v)]"
| "map_store k v ((k', v') # m) =
     (if k = k' then (k, v) # m
      else if k < k' then (k, v) # (k', v') # m
      else (k', v') # map_store k v m)"

text \<open>
  \<^verbatim>\<open>fa_cache_sim_t::victimize\<close>: only a full map loses an entry, the one at the drawn
  position in key order; the generator is not asked otherwise.
\<close>

definition fa_victimize :: "('g \<Rightarrow> nat \<times> 'g) \<Rightarrow> ('g, 'h) cache_sim \<Rightarrow> (64 word \<times> 64 word) list \<Rightarrow> 64 word \<Rightarrow> 64 word \<times> ('g, 'h) cache_sim" where
  "fa_victimize nxt c m addr =
     (let (old_tag, m1, g) =
            (if length m = ways c then
               (let (r, g) = nxt (lfsr c); j = r mod ways c
                in (snd (m ! j), take j m @ drop (Suc j) m, g))
             else (0, m, lfsr c))
      in (old_tag, c\<lparr>lfsr := g, fa_tags := Some (map_store (drop_bit (idx_shift c) addr) (tag_of c addr) m1)\<rparr>))"

definition virt_victimize :: "('g \<Rightarrow> nat \<times> 'g) \<Rightarrow> ('g, 'h) cache_sim \<Rightarrow> 64 word \<Rightarrow> 64 word \<times> ('g, 'h) cache_sim" where
  "virt_victimize nxt c addr =
     (case fa_tags c of
        None \<Rightarrow> victimize nxt c addr
      | Some m \<Rightarrow> fa_victimize nxt c m addr)"

text \<open>
  \<^verbatim>\<open>cache_sim_t::LRU\<close>. The first loop stamps the empty way it finds with
  \<^verbatim>\<open>LRUCount++\<close> and leaves; the statements after the loops stamp the chosen way with
  \<^verbatim>\<open>LRUCount++\<close> again.
\<close>

definition LRU :: "('g, 'h) cache_sim \<Rightarrow> 64 word \<Rightarrow> 64 word \<times> ('g, 'h) cache_sim" where
  "LRU c addr =
     (let idx = idx_of c addr;
          (way, c1) =
            (case first_way (\<lambda>i. tags c ! (idx * ways c + i) = 0) (ways c) 0 of
               Some i \<Rightarrow>
                 (i, c\<lparr>LRUTime := (LRUTime c)[idx * ways c + i := LRUCount c],
                        LRUCount := LRUCount c + 1\<rparr>)
             | None \<Rightarrow> (oldest_way (LRUTime c) (idx * ways c) (ways c) 0 0 2147483647, c));
          victim = tags c1 ! (idx * ways c1 + way)
      in (victim,
          c1\<lparr>LRUTime := (LRUTime c1)[idx * ways c1 + way := LRUCount c1],
              LRUCount := LRUCount c1 + 1,
              tags := (tags c1)[idx * ways c1 + way := tag_of c1 addr]\<rparr>))"

text \<open>\<^verbatim>\<open>cache_sim_t::FIFO\<close>: the same scans on \<^verbatim>\<open>FIFOTime\<close>; \<^verbatim>\<open>FIFOCount\<close> is read,
  never incremented here.\<close>

definition FIFO :: "('g, 'h) cache_sim \<Rightarrow> 64 word \<Rightarrow> 64 word \<times> ('g, 'h) cache_sim" where
  "FIFO c addr =
     (let idx = idx_of c addr;
          (way, c1) =
            (case first_way (\<lambda>i. tags c ! (idx * ways c + i) = 0) (ways c) 0 of
               Some i \<Rightarrow> (i, c\<lparr>FIFOTime := (FIFOTime c)[idx * ways c + i := FIFOCount c]\<rparr>)
             | None \<Rightarrow> (oldest_way (FIFOTime c) (idx * ways c) (ways c) 0 0 2147483647, c));
          victim = tags c1 ! (idx * ways c1 + way)
      in (victim,
          c1\<lparr>FIFOTime := (FIFOTime c1)[idx * ways c1 + way := FIFOCount c1],
              tags := (tags c1)[idx * ways c1 + way := tag_of c1 addr]\<rparr>))"

subsection \<open>Access\<close>

text \<open>
  The choice of the victim in \<^verbatim>\<open>access\<close>:
  \<^verbatim>\<open>uint64_t victim = 0; if (!strcmp(policy, "R")) victim = victimize(addr);
  else if (!strcmp(policy, "L")) victim = LRU(addr);
  else if (!strcmp(policy, "F")) victim = FIFO(addr);\<close>
  With any other policy string nothing is selected and nothing is installed.
\<close>

definition select_victim :: "string \<Rightarrow> ('g \<Rightarrow> nat \<times> 'g) \<Rightarrow> ('g, 'h) cache_sim \<Rightarrow> 64 word \<Rightarrow> 64 word \<times> ('g, 'h) cache_sim" where
  "select_victim policy nxt c addr =
     (if policy = ''R'' then virt_victimize nxt c addr
      else if policy = ''L'' then LRU c addr
      else if policy = ''F'' then FIFO c addr
      else (0, c))"

text \<open>\<^verbatim>\<open>if (miss_handler) miss_handler->access(a, n, s);\<close> A fault of the next level
  stops the process.\<close>

definition call_handler :: "('h \<Rightarrow> 64 word \<Rightarrow> 64 word \<Rightarrow> bool \<Rightarrow> fault + 'h) \<Rightarrow> ('g, 'h) cache_sim \<Rightarrow> 64 word \<Rightarrow> 64 word \<Rightarrow> bool \<Rightarrow> fault + ('g, 'h) cache_sim" where
  "call_handler hacc c a n s =
     (case miss_handler c of
        None \<Rightarrow> Inr c
      | Some h \<Rightarrow>
          (case hacc h a n s of
             Inl e \<Rightarrow> Inl e
           | Inr h' \<Rightarrow> Inr (c\<lparr>miss_handler := Some h'\<rparr>)))"

text \<open>
  The first four statements of \<^verbatim>\<open>access\<close>: the counter of the active policy, then
  the access and byte statistics of the direction.
\<close>

definition count_access :: "string \<Rightarrow> ('g, 'h) cache_sim \<Rightarrow> 64 word \<Rightarrow> bool \<Rightarrow> ('g, 'h) cache_sim" where
  "count_access policy c0 bytes store =
     (let c1 = (if policy = ''L'' then c0\<lparr>LRUCount := LRUCount c0 + 1\<rparr> else c0);
          c2 = (if policy = ''F'' then c1\<lparr>FIFOCount := FIFOCount c1 + 1\<rparr> else c1);
          c3 = (if store then c2\<lparr>write_accesses := write_accesses c2 + 1\<rparr>
                else c2\<lparr>read_accesses := read_accesses c2 + 1\<rparr>)
      in (if store then c3\<lparr>bytes_written := bytes_written c3 + bytes\<rparr>
          else c3\<lparr>bytes_read := bytes_read c3 + bytes\<rparr>))"

text \<open>
  The write-back of the victim in \<^verbatim>\<open>access\<close>:
  \<^verbatim>\<open>if ((victim & (VALID | DIRTY)) == (VALID | DIRTY)) {
    uint64_t dirty_addr = (victim & ~(VALID | DIRTY)) << idx_shift;
    if (miss_handler) miss_handler->access(dirty_addr, linesz, true);
    writebacks++; }\<close>
\<close>

definition write_back :: "('h \<Rightarrow> 64 word \<Rightarrow> 64 word \<Rightarrow> bool \<Rightarrow> fault + 'h) \<Rightarrow> ('g, 'h) cache_sim \<Rightarrow> 64 word \<Rightarrow> fault + ('g, 'h) cache_sim" where
  "write_back hacc c victim =
     (if victim AND (VALID OR DIRTY) = (VALID OR DIRTY) then
        (let dirty_addr = push_bit (idx_shift c) (victim AND NOT (VALID OR DIRTY))
         in case call_handler hacc c dirty_addr (of_nat (linesz c)) True of
              Inl e \<Rightarrow> Inl e
            | Inr c' \<Rightarrow> Inr (c'\<lparr>writebacks := writebacks c' + 1\<rparr>))
      else Inr c)"

text \<open>The last statement of \<^verbatim>\<open>access\<close> for a store: \<^verbatim>\<open>*check_tag(addr) |= DIRTY;\<close>\<close>

definition mark_dirty :: "string \<Rightarrow> ('g, 'h) cache_sim \<Rightarrow> 64 word \<Rightarrow> fault + ('g, 'h) cache_sim" where
  "mark_dirty policy c addr =
     (case virt_check_tag policy c addr of
        (None, c') \<Rightarrow> Inl NullDeref
      | (Some p, c') \<Rightarrow> Inr (or_dirty p c'))"

text \<open>
  \<^verbatim>\<open>cache_sim_t::access\<close>: the statistics, the lookup, and on a miss the miss
  counter, the victim, its write-back, the fill request for the line of \<open>addr\<close> and, for
  a store, the dirty mark on the new line. The diagnostic line written when \<^verbatim>\<open>log\<close>
  is set changes no state and is left out.
\<close>

definition access :: "string \<Rightarrow> ('g \<Rightarrow> nat \<times> 'g) \<Rightarrow> ('h \<Rightarrow> 64 word \<Rightarrow> 64 word \<Rightarrow> bool \<Rightarrow> fault + 'h) \<Rightarrow> ('g, 'h) cache_sim \<Rightarrow> 64 word \<Rightarrow> 64 word \<Rightarrow> bool \<Rightarrow> fault + ('g, 'h) cache_sim" where
  "access policy nxt hacc c0 addr bytes store =
     (let c4 = count_access policy c0 bytes store;
          (hit_way, c5) = virt_check_tag policy c4 addr
      in case hit_way of
           Some p \<Rightarrow> Inr (if store then or_dirty p c5 else c5)
         | None \<Rightarrow>
             (let c6 = (if store then c5\<lparr>write_misses := write_misses c5 + 1\<rparr>
                        else c5\<lparr>read_misses := read_misses c5 + 1\<rparr>);
                  (victim, c7) = select_victim policy nxt c6 addr
              in case write_back hacc c7 victim of
                   Inl e \<Rightarrow> Inl e
                 | Inr c8 \<Rightarrow>
                     (case call_handler hacc c8 (addr AND NOT (of_nat (linesz c8) - 1))
                             (of_nat (linesz c8)) False of
                        Inl e \<Rightarrow> Inl e
                      | Inr c9 \<Rightarrow> (if store then mark_dirty policy c9 addr else Inr c9))))"

text \<open>
  A trace of accesses \<open>(addr, bytes, store)\<close> issued one after the other, as the simulated
  processor does; a fault ends the run.
\<close>

fun run_trace :: "string \<Rightarrow> ('g \<Rightarrow> nat \<times> 'g) \<Rightarrow> ('h \<Rightarrow> 64 word \<Rightarrow> 64 word \<Rightarrow> bool \<Rightarrow> fault + 'h) \<Rightarrow> ('g, 'h) cache_sim \<Rightarrow> (64 word \<times> 64 word \<times> bool) list \<Rightarrow> fault + ('g, 'h) cache_sim" where
  "run_trace policy nxt hacc c [] = Inr c"
| "run_trace policy nxt hacc c ((addr, bytes, store) # rest) =
     (case access policy nxt hacc c addr bytes store of
        Inl e \<Rightarrow> Inl e
      | Inr c' \<Rightarrow> run_trace policy nxt hacc c' rest)"

text \<open>
  The hit/miss sequence of a trace, read off the statistics: an access is a hit (\<open>True\<close>)
  when it leaves both miss counters as they were.
\<close>

fun hit_sequence :: "string \<Rightarrow> ('g \<Rightarrow> nat \<times> 'g) \<Rightarrow> ('h \<Rightarrow> 64 word \<Rightarrow> 64 word \<Rightarrow> bool \<Rightarrow> fault + 'h) \<Rightarrow> ('g, 'h) cache_sim \<Rightarrow> (64 word \<times> 64 word \<times> bool) list \<Rightarrow> fault + bool list" where
  "hit_sequence policy nxt hacc c [] = Inr []"
| "hit_sequence policy nxt hacc c ((addr, bytes, store) # rest) =
     (case access policy nxt hacc c addr bytes store of
        Inl e \<Rightarrow> Inl e
      | Inr c' \<Rightarrow>
          (case hit_sequence policy nxt hacc c' rest of
             Inl e \<Rightarrow> Inl e
           | Inr hs \<Rightarrow>
               Inr ((read_misses c' = read_misses c \<and> write_misses c' = write_misses c) # hs)))"

subsection \<open>Well-formed states and test doubles\<close>

text \<open>
  The invariant that \<^verbatim>\<open>init\<close> establishes for a geometry that fits an array, with at
  least one way: the three arrays have \<^verbatim>\<open>sets*ways\<close> elements, that product does not
  wrap, and \<open>idx_shift\<close> is the logarithm of a line size of at least 8. In such a state
  every index \<^verbatim>\<open>idx*ways + i\<close> with \<open>i < ways\<close> is inside the arrays. (With
  \<open>ways = 0\<close> the source reads outside its arrays or divides by zero.)
\<close>

definition wf :: "('g, 'h) cache_sim \<Rightarrow> bool" where
  "wf c \<longleftrightarrow>
     0 < sets c \<and> 0 < ways c \<and> sets c * ways c < 2 ^ 64 \<and>
     length (tags c) = sets c * ways c \<and>
     length (LRUTime c) = sets c * ways c \<and>
     length (FIFOTime c) = sets c * ways c \<and>
     3 \<le> idx_shift c \<and> idx_shift c < 64 \<and> linesz c = 2 ^ idx_shift c"

text \<open>The array slot at which the lookup of \<^verbatim>\<open>cache_sim_t::check_tag\<close> finds the line of
  \<open>addr\<close>, if it is resident.\<close>

definition hit_way :: "('g, 'h) cache_sim \<Rightarrow> 64 word \<Rightarrow> nat option" where
  "hit_way c addr =
     map_option (\<lambda>i. idx_of c addr * ways c + i)
       (first_way (\<lambda>i. tag_of c addr = (tags c ! (idx_of c addr * ways c + i)) AND NOT DIRTY) (ways c) 0)"

text \<open>
  Stand-ins for the two parameters in closed examples: a next level that is never
  reached, a next level that only records the calls it receives, in order, and a
  generator that always draws its state.
\<close>

definition no_handler :: "unit \<Rightarrow> 64 word \<Rightarrow> 64 word \<Rightarrow> bool \<Rightarrow> fault + unit" where
  "no_handler h a n s = Inr h"

definition recorder :: "(64 word \<times> 64 word \<times> bool) list \<Rightarrow> 64 word \<Rightarrow> 64 word \<Rightarrow> bool \<Rightarrow> fault + (64 word \<times> 64 word \<times> bool) list" where
  "recorder calls a n s = Inr (calls @ [(a, n, s)])"

definition fixed_draw :: "nat \<Rightarrow> nat \<times> nat" where
  "fixed_draw g = (g, g)"

text \<open>
  What a next level receives when the requests \<open>(addr, bytes, store)\<close> of a list are sent
  to it one after the other; with no next level nothing is sent.
\<close>

fun forward :: "('h \<Rightarrow> 64 word \<Rightarrow> 64 word \<Rightarrow> bool \<Rightarrow> fault + 'h) \<Rightarrow> 'h option \<Rightarrow> (64 word \<times> 64 word \<times> bool) list \<Rightarrow> fault + 'h option" where
  "forward hacc mh [] = Inr mh"
| "forward hacc None (r # rs) = Inr None"
| "forward hacc (Some h) ((a, n, s) # rs) =
     (case hacc h a n s of
        Inl e \<Rightarrow> Inl e
      | Inr h' \<Rightarrow> forward hacc (Some h') rs)"

text \<open>
  A state for closed examples: one set of two ways with lines of 8 bytes, way 0 empty and
  way 1 holding line 5 (addresses 40 to 47), valid and dirty; the generator always draws
  1 and the next level is the recording one. It is the state after one store to address
  40 under the random policy (\<open>demo_reached\<close> below).
\<close>

definition demo :: "(nat, (64 word \<times> 64 word \<times> bool) list) cache_sim" where
  "demo = \<lparr> sets = 1, ways = 2, linesz = 8, idx_shift = 3,
             tags = [0, 5 OR VALID OR DIRTY],
             fa_tags = None,
             LRUCount = 0, FIFOCount = 0,
             LRUTime = [0, 0], FIFOTime = [0, 0],
             read_accesses = 0, read_misses = 0, bytes_read = 0,
             write_accesses = 1, write_misses = 1, bytes_written = 8,
             writebacks = 0,
             lfsr = 1, miss_handler = Some [(40, 8, False)] \<rparr>"

section \<open>Auxiliary lemmas\<close>

lemma idx_of_less:
  assumes "0 < sets c" "sets c < 2 ^ 64"
  shows "idx_of c addr < sets c"
proof -
  let ?m = "of_nat (sets c) - 1 :: 64 word"
  have s: "unat (of_nat (sets c) :: 64 word) = sets c"
    using assms by (simp add: unat_of_nat)
  then have nz: "(of_nat (sets c) :: 64 word) \<noteq> 0"
    using assms by (metis less_numeral_extra(3) unat_0)
  have "unat ?m = sets c - 1"
    using s nz by (simp add: unat_minus_one)
  moreover have "unat (drop_bit (idx_shift c) addr AND ?m) \<le> unat ?m"
    by (rule word_and_le1 [THEN word_le_nat_alt [THEN iffD1]])
  ultimately show ?thesis
    using assms by (simp add: idx_of_def)
qed

lemma first_way_SomeD:
  "first_way P w i = Some j \<Longrightarrow> i \<le> j \<and> j < w \<and> P j \<and> (\<forall>k. i \<le> k \<and> k < j \<longrightarrow> \<not> P k)"
proof (induction P w i rule: first_way.induct)
  case (1 P w i)
  show ?case
  proof (cases "i < w \<and> \<not> P i")
    case True
    then have "first_way P w (i + 1) = Some j"
      using "1.prems" by (simp add: first_way.simps [of P w i])
    with "1.IH" True have *: "i + 1 \<le> j \<and> j < w \<and> P j \<and> (\<forall>k. i + 1 \<le> k \<and> k < j \<longrightarrow> \<not> P k)"
      by simp
    have "\<not> P k" if "i \<le> k" "k < j" for k
      using that * True by (cases "k = i") auto
    with * show ?thesis by auto
  next
    case False
    then show ?thesis
      using "1.prems" by (auto simp: first_way.simps [of P w i] split: if_splits)
  qed
qed

lemma slot_in_range:
  assumes "wf c" "i < ways c"
  shows "idx_of c addr * ways c + i < sets c * ways c"
proof -
  have "sets c < 2 ^ 64"
  proof (rule ccontr)
    assume "\<not> sets c < 2 ^ 64"
    then have "2 ^ 64 * 1 \<le> sets c * ways c"
      using assms by (intro mult_le_mono) (auto simp: wf_def)
    then show False using assms by (simp add: wf_def)
  qed
  then have "idx_of c addr < sets c"
    using assms by (simp add: idx_of_less wf_def)
  then have "Suc (idx_of c addr) * ways c \<le> sets c * ways c"
    by (intro mult_le_mono1) simp
  then show ?thesis using assms by simp
qed

lemma hit_way_SomeD:
  "hit_way c addr = Some j \<Longrightarrow>
     \<exists>i<ways c. j = idx_of c addr * ways c + i \<and> tag_of c addr = tags c ! j AND NOT DIRTY"
  by (auto simp: hit_way_def dest!: first_way_SomeD)

lemma check_tag_eq:
  "check_tag policy c addr =
     (case hit_way c addr of
        None \<Rightarrow> (None, c)
      | Some j \<Rightarrow> (Some (ArrayWay j),
                    if policy = ''L'' then c\<lparr>LRUTime := (LRUTime c)[j := LRUCount c]\<rparr> else c))"
  by (simp add: check_tag_def hit_way_def Let_def split: option.splits)

lemma fst_check_tag: "fst (check_tag policy c addr) = map_option ArrayWay (hit_way c addr)"
  by (simp add: check_tag_eq split: option.splits)

lemma hit_way_cong:
  "tags c' = tags c \<Longrightarrow> sets c' = sets c \<Longrightarrow> ways c' = ways c \<Longrightarrow> idx_shift c' = idx_shift c \<Longrightarrow>
     hit_way c' addr = hit_way c addr"
  by (simp add: hit_way_def idx_of_def tag_of_def)

lemma count_access_fields [simp]:
  "sets (count_access policy c bytes store) = sets c"
  "ways (count_access policy c bytes store) = ways c"
  "linesz (count_access policy c bytes store) = linesz c"
  "idx_shift (count_access policy c bytes store) = idx_shift c"
  "tags (count_access policy c bytes store) = tags c"
  "fa_tags (count_access policy c bytes store) = fa_tags c"
  "LRUTime (count_access policy c bytes store) = LRUTime c"
  "FIFOTime (count_access policy c bytes store) = FIFOTime c"
  "read_misses (count_access policy c bytes store) = read_misses c"
  "write_misses (count_access policy c bytes store) = write_misses c"
  "writebacks (count_access policy c bytes store) = writebacks c"
  "lfsr (count_access policy c bytes store) = lfsr c"
  "miss_handler (count_access policy c bytes store) = miss_handler c"
  by (simp_all add: count_access_def Let_def)

lemma count_access_counters:
  "LRUCount (count_access policy c bytes store) = (if policy = ''L'' then LRUCount c + 1 else LRUCount c)"
  "FIFOCount (count_access policy c bytes store) = (if policy = ''F'' then FIFOCount c + 1 else FIFOCount c)"
  "read_accesses (count_access policy c bytes store) = (if store then read_accesses c else read_accesses c + 1)"
  "write_accesses (count_access policy c bytes store) = (if store then write_accesses c + 1 else write_accesses c)"
  "bytes_read (count_access policy c bytes store) = (if store then bytes_read c else bytes_read c + bytes)"
  "bytes_written (count_access policy c bytes store) = (if store then bytes_written c + bytes else bytes_written c)"
  by (simp_all add: count_access_def Let_def)


lemma access_hit:
  assumes "fa_tags c = None" "hit_way c addr = Some j"
  shows "access policy nxt hacc c addr bytes store =
     Inr (c\<lparr>LRUCount := (if policy = ''L'' then LRUCount c + 1 else LRUCount c),
            FIFOCount := (if policy = ''F'' then FIFOCount c + 1 else FIFOCount c),
            LRUTime := (if policy = ''L'' then (LRUTime c)[j := LRUCount c + 1] else LRUTime c),
            tags := (if store then (tags c)[j := tags c ! j OR DIRTY] else tags c),
            read_accesses := (if store then read_accesses c else read_accesses c + 1),
            bytes_read := (if store then bytes_read c else bytes_read c + bytes),
            write_accesses := (if store then write_accesses c + 1 else write_accesses c),
            bytes_written := (if store then bytes_written c + bytes else bytes_written c)\<rparr>)"
proof -
  have "hit_way (count_access policy c bytes store) addr = hit_way c addr"
    by (rule hit_way_cong) simp_all
  then have h: "hit_way (count_access policy c bytes store) addr = Some j"
    using assms(2) by simp
  have step: "access policy nxt hacc c addr bytes store =
     Inr (let c4 = count_access policy c bytes store;
              c5 = (if policy = ''L'' then c4\<lparr>LRUTime := (LRUTime c4)[j := LRUCount c4]\<rparr> else c4)
          in if store then or_dirty (ArrayWay j) c5 else c5)"
    using assms(1) h
    by (simp add: access_def virt_check_tag_def check_tag_eq Let_def)
  show ?thesis
    unfolding step by (simp add: count_access_def or_dirty_def Let_def)
qed


lemma oldest_way_less:
  "way < w \<Longrightarrow> oldest_way tm base w i way count < w"
proof (induction tm base w i way count rule: oldest_way.induct)
  case (1 tm base w i way count)
  then show ?case
    by (simp add: oldest_way.simps [of tm base w i way count])
qed

lemma bit_VALID: "bit VALID n \<longleftrightarrow> n = 63"
  unfolding VALID_def by (simp only: push_bit_of_1 bit_exp_iff) auto

lemma bit_DIRTY: "bit DIRTY n \<longleftrightarrow> n = 62"
  unfolding DIRTY_def by (simp only: push_bit_of_1 bit_exp_iff) auto

lemma tag_of_clean: "2 \<le> idx_shift c \<Longrightarrow> tag_of c addr AND NOT DIRTY = tag_of c addr"
  by (rule bit_word_eqI) (auto simp: tag_of_def bit_VALID bit_DIRTY bit_simps dest: bit_imp_le_length)

lemma select_victim_frame:
  assumes "fa_tags c = None"
  shows "sets (snd (select_victim policy nxt c addr)) = sets c"
    and "ways (snd (select_victim policy nxt c addr)) = ways c"
    and "linesz (snd (select_victim policy nxt c addr)) = linesz c"
    and "idx_shift (snd (select_victim policy nxt c addr)) = idx_shift c"
    and "fa_tags (snd (select_victim policy nxt c addr)) = None"
    and "miss_handler (snd (select_victim policy nxt c addr)) = miss_handler c"
    and "FIFOCount (snd (select_victim policy nxt c addr)) = FIFOCount c"
    and "read_accesses (snd (select_victim policy nxt c addr)) = read_accesses c"
    and "read_misses (snd (select_victim policy nxt c addr)) = read_misses c"
    and "bytes_read (snd (select_victim policy nxt c addr)) = bytes_read c"
    and "write_accesses (snd (select_victim policy nxt c addr)) = write_accesses c"
    and "write_misses (snd (select_victim policy nxt c addr)) = write_misses c"
    and "bytes_written (snd (select_victim policy nxt c addr)) = bytes_written c"
    and "writebacks (snd (select_victim policy nxt c addr)) = writebacks c"
    and "length (tags (snd (select_victim policy nxt c addr))) = length (tags c)"
    and "length (LRUTime (snd (select_victim policy nxt c addr))) = length (LRUTime c)"
    and "length (FIFOTime (snd (select_victim policy nxt c addr))) = length (FIFOTime c)"
  using assms
  by (simp_all add: select_victim_def virt_victimize_def victimize_def LRU_def FIFO_def Let_def
        split: option.splits prod.splits)

lemma select_victim_installs:
  assumes "wf c" "fa_tags c = None" "policy = ''R'' \<or> policy = ''L'' \<or> policy = ''F''"
  shows "\<exists>way<ways c.
           fst (select_victim policy nxt c addr) = tags c ! (idx_of c addr * ways c + way) \<and>
           tags (snd (select_victim policy nxt c addr)) =
             (tags c)[idx_of c addr * ways c + way := tag_of c addr]"
proof -
  have w: "0 < ways c" using assms(1) by (simp add: wf_def)
  consider "policy = ''R''" | "policy = ''L''" | "policy = ''F''" using assms(3) by blast
  then show ?thesis
  proof cases
    case 1
    obtain r g where n: "nxt (lfsr c) = (r, g)" by (cases "nxt (lfsr c)")
    have "r mod ways c < ways c" using w by simp
    then show ?thesis
      using 1 assms(2) n
      by (intro exI [of _ "r mod ways c"])
         (simp add: select_victim_def virt_victimize_def victimize_def Let_def tag_of_def idx_of_def)
  next
    case 2
    show ?thesis
    proof (cases "first_way (\<lambda>i. tags c ! (idx_of c addr * ways c + i) = 0) (ways c) 0")
      case None
      have "oldest_way (LRUTime c) (idx_of c addr * ways c) (ways c) 0 0 2147483647 < ways c"
        using w by (rule oldest_way_less)
      then show ?thesis
        using 2 None
        by (intro exI [of _ "oldest_way (LRUTime c) (idx_of c addr * ways c) (ways c) 0 0 2147483647"])
           (simp add: select_victim_def LRU_def Let_def tag_of_def idx_of_def)
    next
      case (Some i)
      then have "i < ways c" by (auto dest: first_way_SomeD)
      then show ?thesis
        using 2 Some
        by (intro exI [of _ i])
           (simp add: select_victim_def LRU_def Let_def tag_of_def idx_of_def)
    qed
  next
    case 3
    show ?thesis
    proof (cases "first_way (\<lambda>i. tags c ! (idx_of c addr * ways c + i) = 0) (ways c) 0")
      case None
      have "oldest_way (FIFOTime c) (idx_of c addr * ways c) (ways c) 0 0 2147483647 < ways c"
        using w by (rule oldest_way_less)
      then show ?thesis
        using 3 None
        by (intro exI [of _ "oldest_way (FIFOTime c) (idx_of c addr * ways c) (ways c) 0 0 2147483647"])
           (simp add: select_victim_def FIFO_def Let_def tag_of_def idx_of_def)
    next
      case (Some i)
      then have "i < ways c" by (auto dest: first_way_SomeD)
      then show ?thesis
        using 3 Some
        by (intro exI [of _ i])
           (simp add: select_victim_def FIFO_def Let_def tag_of_def idx_of_def)
    qed
  qed
qed

lemma first_way_None_iff:
  "first_way P w i = None \<longleftrightarrow> (\<forall>k. i \<le> k \<and> k < w \<longrightarrow> \<not> P k)"
proof (induction P w i rule: first_way.induct)
  case (1 P w i)
  show ?case
  proof (cases "i < w")
    case True
    show ?thesis
    proof (cases "P i")
      case True
      with \<open>i < w\<close> show ?thesis
        by (auto simp: first_way.simps [of P w i])
    next
      case False
      with \<open>i < w\<close> "1.IH" have "first_way P w i = None \<longleftrightarrow> (\<forall>k. i + 1 \<le> k \<and> k < w \<longrightarrow> \<not> P k)"
        by (simp add: first_way.simps [of P w i])
      also have "\<dots> \<longleftrightarrow> (\<forall>k. i \<le> k \<and> k < w \<longrightarrow> \<not> P k)"
      proof
        assume a: "\<forall>k. i + 1 \<le> k \<and> k < w \<longrightarrow> \<not> P k"
        show "\<forall>k. i \<le> k \<and> k < w \<longrightarrow> \<not> P k"
        proof (intro allI impI)
          fix k assume "i \<le> k \<and> k < w"
          then show "\<not> P k" using a False by (cases "k = i") auto
        qed
      qed auto
      finally show ?thesis .
    qed
  next
    case False
    then show ?thesis by (auto simp: first_way.simps [of P w i])
  qed
qed

lemma hit_way_after_install:
  assumes "wf c" "way < ways c"
    and "tags c' = (tags c)[idx_of c addr * ways c + way := tag_of c addr]"
    and "sets c' = sets c" "ways c' = ways c" "idx_shift c' = idx_shift c"
  shows "\<exists>j. hit_way c' addr = Some j"
proof -
  have idx: "idx_of c' addr = idx_of c addr" and tag: "tag_of c' addr = tag_of c addr"
    using assms by (simp_all add: idx_of_def tag_of_def)
  have "idx_of c addr * ways c + way < length (tags c)"
    using assms(1,2) slot_in_range [of c way addr] by (simp add: wf_def)
  then have "tags c' ! (idx_of c addr * ways c + way) = tag_of c addr"
    using assms(3) by simp
  moreover have "tag_of c addr AND NOT DIRTY = tag_of c addr"
    using assms(1) by (intro tag_of_clean) (simp add: wf_def)
  ultimately have "tag_of c' addr = tags c' ! (idx_of c' addr * ways c' + way) AND NOT DIRTY"
    using idx tag assms(5) by simp
  then have "first_way (\<lambda>i. tag_of c' addr = tags c' ! (idx_of c' addr * ways c' + i) AND NOT DIRTY) (ways c') 0 \<noteq> None"
    using assms(2,5) by (auto simp: first_way_None_iff)
  then show ?thesis by (auto simp: hit_way_def)
qed


lemma select_victim_fst_cong:
  assumes "tags c' = tags c" "LRUTime c' = LRUTime c" "FIFOTime c' = FIFOTime c" "lfsr c' = lfsr c"
    and "sets c' = sets c" "ways c' = ways c" "idx_shift c' = idx_shift c" "fa_tags c' = fa_tags c"
  shows "fst (select_victim policy nxt c' addr) = fst (select_victim policy nxt c addr)"
  using assms
  by (simp add: select_victim_def virt_victimize_def victimize_def fa_victimize_def LRU_def FIFO_def
        Let_def idx_of_def tag_of_def split: option.splits prod.splits)

lemma wf_cong:
  assumes "sets c' = sets c" "ways c' = ways c" "linesz c' = linesz c" "idx_shift c' = idx_shift c"
    and "length (tags c') = length (tags c)" "length (LRUTime c') = length (LRUTime c)"
    and "length (FIFOTime c') = length (FIFOTime c)"
  shows "wf c' = wf c"
  using assms by (simp add: wf_def)

lemma forward_append:
  "forward hacc mh (xs @ ys) =
     (case forward hacc mh xs of Inl e \<Rightarrow> Inl e | Inr mh' \<Rightarrow> forward hacc mh' ys)"
proof (induction hacc mh xs rule: forward.induct)
  case (2 hacc r rs)
  then show ?case by (cases ys) simp_all
qed (simp_all split: sum.splits)

lemma call_handler_forward:
  "call_handler hacc c a n s =
     (case forward hacc (miss_handler c) [(a, n, s)] of
        Inl e \<Rightarrow> Inl e
      | Inr mh \<Rightarrow> Inr (c\<lparr>miss_handler := mh\<rparr>))"
  by (cases "miss_handler c") (simp_all add: call_handler_def split: sum.splits)

lemma write_back_forward:
  "write_back hacc c v =
     (case forward hacc (miss_handler c)
             (if v AND (VALID OR DIRTY) = (VALID OR DIRTY)
              then [(push_bit (idx_shift c) (v AND NOT (VALID OR DIRTY)), of_nat (linesz c), True)]
              else []) of
        Inl e \<Rightarrow> Inl e
      | Inr mh \<Rightarrow>
          Inr (c\<lparr>miss_handler := mh,
                 writebacks := writebacks c + (if v AND (VALID OR DIRTY) = (VALID OR DIRTY) then 1 else 0)\<rparr>))"
  by (cases "miss_handler c") (simp_all add: write_back_def call_handler_def Let_def split: sum.splits)

lemma mark_dirty_hit:
  assumes "fa_tags c = None" "hit_way c addr = Some j"
  shows "mark_dirty policy c addr =
     Inr (c\<lparr>LRUTime := (if policy = ''L'' then (LRUTime c)[j := LRUCount c] else LRUTime c),
            tags := (tags c)[j := tags c ! j OR DIRTY]\<rparr>)"
  using assms by (simp add: mark_dirty_def virt_check_tag_def check_tag_eq or_dirty_def)

lemma mark_dirty_miss:
  assumes "fa_tags c = None" "hit_way c addr = None"
  shows "mark_dirty policy c addr = Inl NullDeref"
  using assms by (simp add: mark_dirty_def virt_check_tag_def check_tag_eq)


lemma access_miss_unfold:
  assumes "fa_tags c = None" "hit_way c addr = None"
    and "select_victim policy nxt
           (if store then (count_access policy c bytes store)\<lparr>write_misses := write_misses c + 1\<rparr>
            else (count_access policy c bytes store)\<lparr>read_misses := read_misses c + 1\<rparr>) addr = (v, c7)"
  shows "access policy nxt hacc c addr bytes store =
     (case write_back hacc c7 v of
        Inl e \<Rightarrow> Inl e
      | Inr c8 \<Rightarrow>
          (case call_handler hacc c8 (addr AND NOT (of_nat (linesz c8) - 1)) (of_nat (linesz c8)) False of
             Inl e \<Rightarrow> Inl e
           | Inr c9 \<Rightarrow> (if store then mark_dirty policy c9 addr else Inr c9)))"
proof -
  have "hit_way (count_access policy c bytes store) addr = hit_way c addr"
    by (rule hit_way_cong) simp_all
  then have h: "hit_way (count_access policy c bytes store) addr = None"
    using assms(2) by simp
  show ?thesis
    using assms(1,3) h
    by (cases store) (simp_all add: access_def virt_check_tag_def check_tag_eq Let_def cong: sum.case_cong)
qed

lemma select_victim_LRUCount:
  assumes "fa_tags c = None"
  shows "LRUCount (snd (select_victim policy nxt c addr)) =
     (if policy = ''L''
      then LRUCount c +
           (if first_way (\<lambda>i. tags c ! (idx_of c addr * ways c + i) = 0) (ways c) 0 = None then 1 else 2)
      else LRUCount c)"
  using assms
  by (simp add: select_victim_def virt_victimize_def victimize_def LRU_def FIFO_def Let_def
        split: option.splits prod.splits)

lemma access_miss_good:
  fixes c :: "('g, 'h) cache_sim" and nxt :: "'g \<Rightarrow> nat \<times> 'g" and policy :: string and addr :: "64 word"
  assumes "wf c" "fa_tags c = None" "hit_way c addr = None"
    and "policy = ''R'' \<or> policy = ''L'' \<or> policy = ''F''"
  defines "v \<equiv> fst (select_victim policy nxt c addr)"
  shows "\<exists>c'. writebacks c' = writebacks c + (if v AND (VALID OR DIRTY) = (VALID OR DIRTY) then 1 else 0) \<and>
           read_misses c' = (if store then read_misses c else read_misses c + 1) \<and>
           write_misses c' = (if store then write_misses c + 1 else write_misses c) \<and>
           FIFOCount c' = (if policy = ''F'' then FIFOCount c + 1 else FIFOCount c) \<and>
           LRUCount c' =
             (if policy = ''L''
              then LRUCount c +
                   (if first_way (\<lambda>i. tags c ! (idx_of c addr * ways c + i) = 0) (ways c) 0 = None
                    then 2 else 3)
              else LRUCount c) \<and>
           (\<forall>hacc. access policy nxt hacc c addr bytes store =
              (case forward hacc (miss_handler c)
                      ((if v AND (VALID OR DIRTY) = (VALID OR DIRTY)
                        then [(push_bit (idx_shift c) (v AND NOT (VALID OR DIRTY)), of_nat (linesz c), True)]
                        else [])
                       @ [(addr AND NOT (of_nat (linesz c) - 1), of_nat (linesz c), False)]) of
                 Inl e \<Rightarrow> Inl e
               | Inr mh \<Rightarrow> Inr (c'\<lparr>miss_handler := mh\<rparr>)))"
proof -
  define c6 where "c6 =
    (if store then (count_access policy c bytes store)\<lparr>write_misses := write_misses c + 1\<rparr>
     else (count_access policy c bytes store)\<lparr>read_misses := read_misses c + 1\<rparr>)"
  obtain v6 c7 where sv: "select_victim policy nxt c6 addr = (v6, c7)"
    by (cases "select_victim policy nxt c6 addr")
  have c7: "c7 = snd (select_victim policy nxt c6 addr)" and v6: "v6 = fst (select_victim policy nxt c6 addr)"
    using sv by simp_all
  have fa6: "fa_tags c6 = None" using assms(2) by (simp add: c6_def)
  have "wf c6 = wf c"
    by (rule wf_cong) (simp_all add: c6_def)
  then have wf6: "wf c6"
    using assms(1) by simp
  have "v6 = v"
    unfolding v6 v_def by (rule select_victim_fst_cong) (simp_all add: c6_def)
  note fr = select_victim_frame [OF fa6, of policy nxt addr, folded c7]
  have g7: "idx_shift c7 = idx_shift c" "linesz c7 = linesz c" "miss_handler c7 = miss_handler c"
    "writebacks c7 = writebacks c" "fa_tags c7 = None"
    using fr by (simp_all add: c6_def)
  obtain way where way: "way < ways c6"
    "tags c7 = (tags c6)[idx_of c6 addr * ways c6 + way := tag_of c6 addr]"
    using select_victim_installs [OF wf6 fa6 assms(4), of nxt addr] c7 by auto
  obtain j where j: "hit_way c7 addr = Some j"
    using hit_way_after_install [OF wf6 way(1) way(2)] fr by auto
  define k :: "64 word" where "k = (if v AND (VALID OR DIRTY) = (VALID OR DIRTY) then 1 else 0)"
  define c8 where "c8 = c7\<lparr>writebacks := writebacks c7 + k\<rparr>"
  define c' where "c' =
    (if store then c8\<lparr>LRUTime := (if policy = ''L'' then (LRUTime c8)[j := LRUCount c8] else LRUTime c8),
                        tags := (tags c8)[j := tags c8 ! j OR DIRTY]\<rparr>
     else c8)"
  have wb: "writebacks c' = writebacks c + k"
    using g7 by (simp add: c'_def c8_def)
  have cnt: "read_misses c' = (if store then read_misses c else read_misses c + 1)"
    "write_misses c' = (if store then write_misses c + 1 else write_misses c)"
    "FIFOCount c' = (if policy = ''F'' then FIFOCount c + 1 else FIFOCount c)"
    using fr by (simp_all add: c'_def c8_def c6_def count_access_counters)
  have "LRUCount c' = LRUCount c7"
    by (simp add: c'_def c8_def)
  also have "\<dots> =
     (if policy = ''L''
      then LRUCount c6 +
           (if first_way (\<lambda>i. tags c6 ! (idx_of c6 addr * ways c6 + i) = 0) (ways c6) 0 = None then 1 else 2)
      else LRUCount c6)"
    unfolding c7 by (rule select_victim_LRUCount [OF fa6])
  also have "\<dots> =
     (if policy = ''L''
      then LRUCount c +
           (if first_way (\<lambda>i. tags c ! (idx_of c addr * ways c + i) = 0) (ways c) 0 = None then 2 else 3)
      else LRUCount c)"
    by (simp add: c6_def count_access_counters idx_of_def)
  finally have lru: "LRUCount c' =
     (if policy = ''L''
      then LRUCount c +
           (if first_way (\<lambda>i. tags c ! (idx_of c addr * ways c + i) = 0) (ways c) 0 = None then 2 else 3)
      else LRUCount c)" .
  define wbreq where "wbreq =
    (if v AND (VALID OR DIRTY) = (VALID OR DIRTY)
     then [(push_bit (idx_shift c) (v AND NOT (VALID OR DIRTY)), (of_nat (linesz c) :: 64 word), True)]
     else [])"
  define fillreq where "fillreq = (addr AND NOT (of_nat (linesz c) - 1), (of_nat (linesz c) :: 64 word), False)"
  have "access policy nxt hacc c addr bytes store =
      (case forward hacc (miss_handler c) (wbreq @ [fillreq]) of
         Inl e \<Rightarrow> Inl e
       | Inr mh \<Rightarrow> Inr (c'\<lparr>miss_handler := mh\<rparr>))" for hacc
  proof -
    have md: "mark_dirty policy (c8\<lparr>miss_handler := mh\<rparr>) addr =
        Inr (c8\<lparr>LRUTime := (if policy = ''L'' then (LRUTime c8)[j := LRUCount c8] else LRUTime c8),
                tags := (tags c8)[j := tags c8 ! j OR DIRTY], miss_handler := mh\<rparr>)" for mh
    proof -
      have "hit_way (c8\<lparr>miss_handler := mh\<rparr>) addr = hit_way c7 addr"
        by (rule hit_way_cong) (simp_all add: c8_def)
      then have "hit_way (c8\<lparr>miss_handler := mh\<rparr>) addr = Some j" using j by simp
      moreover have "fa_tags (c8\<lparr>miss_handler := mh\<rparr>) = None" using g7 by (simp add: c8_def)
      ultimately show ?thesis
        by (simp add: mark_dirty_hit [where j = j])
    qed
    have fin: "(if store then mark_dirty policy (c8\<lparr>miss_handler := mh\<rparr>) addr else Inr (c8\<lparr>miss_handler := mh\<rparr>))
        = Inr (c'\<lparr>miss_handler := mh\<rparr>)" for mh
      by (simp add: md c'_def)
    have wb_eq: "write_back hacc c7 v =
        (case forward hacc (miss_handler c) wbreq of
           Inl e \<Rightarrow> Inl e
         | Inr mh \<Rightarrow> Inr (c8\<lparr>miss_handler := mh\<rparr>))"
      unfolding write_back_forward [of hacc c7 v] g7 wbreq_def [symmetric] k_def [symmetric]
      by (simp add: c8_def g7 split: sum.splits)
    have ch_eq: "call_handler hacc (c8\<lparr>miss_handler := mh\<rparr>)
           (addr AND NOT (of_nat (linesz c8) - 1)) (of_nat (linesz c8)) False =
        (case forward hacc mh [fillreq] of
           Inl e \<Rightarrow> Inl e
         | Inr mh' \<Rightarrow> Inr (c8\<lparr>miss_handler := mh'\<rparr>))" for mh
      unfolding call_handler_forward fillreq_def
      by (simp add: c8_def g7 split: sum.splits)
    have "access policy nxt hacc c addr bytes store =
       (case write_back hacc c7 v of
          Inl e \<Rightarrow> Inl e
        | Inr c8 \<Rightarrow>
            (case call_handler hacc c8 (addr AND NOT (of_nat (linesz c8) - 1)) (of_nat (linesz c8)) False of
               Inl e \<Rightarrow> Inl e
             | Inr c9 \<Rightarrow> (if store then mark_dirty policy c9 addr else Inr c9)))"
      using sv \<open>v6 = v\<close> by (intro access_miss_unfold assms) (simp add: c6_def)
    also have "\<dots> =
       (case forward hacc (miss_handler c) (wbreq @ [fillreq]) of
         Inl e \<Rightarrow> Inl e
       | Inr mh \<Rightarrow> Inr (c'\<lparr>miss_handler := mh\<rparr>))"
    proof (cases "forward hacc (miss_handler c) wbreq")
      case (Inl e)
      then show ?thesis by (simp add: wb_eq forward_append)
    next
      case (Inr mh1)
      show ?thesis
      proof (cases "forward hacc mh1 [fillreq]")
        case (Inl e)
        then show ?thesis using Inr by (simp add: wb_eq forward_append ch_eq)
      next
        case (Inr mh2)
        then show ?thesis
          using \<open>forward hacc (miss_handler c) wbreq = Inr mh1\<close>
          by (simp add: wb_eq forward_append ch_eq fin)
      qed
    qed
    finally show ?thesis .
  qed
  with wb cnt lru show ?thesis unfolding k_def wbreq_def fillreq_def by blast
qed


lemma flags_nonzero: "VALID OR DIRTY \<noteq> 0"
proof
  assume "VALID OR DIRTY = 0"
  then have "bit (VALID OR DIRTY) 63 = bit (0 :: 64 word) 63" by simp
  then show False by (simp add: bit_VALID bit_simps)
qed

lemma forward_fault:
  "forward hacc mh reqs = Inl e \<Longrightarrow> \<exists>h a n s. hacc h a n s = Inl e"
proof (induction hacc mh reqs rule: forward.induct)
  case (3 hacc h a n s rs)
  then show ?case by (cases "hacc h a n s") auto
qed simp_all

lemma access_miss_bad_policy:
  assumes "fa_tags c = None" "hit_way c addr = None"
    and "policy \<noteq> ''R''" "policy \<noteq> ''L''" "policy \<noteq> ''F''"
  shows "access policy nxt hacc c addr bytes store =
     (case forward hacc (miss_handler c)
             [(addr AND NOT (of_nat (linesz c) - 1), of_nat (linesz c), False)] of
        Inl e \<Rightarrow> Inl e
      | Inr mh \<Rightarrow>
          (if store then Inl NullDeref
           else Inr ((count_access policy c bytes store)
                       \<lparr>read_misses := read_misses c + 1, miss_handler := mh\<rparr>)))"
proof -
  define c6 where "c6 =
    (if store then (count_access policy c bytes store)\<lparr>write_misses := write_misses c + 1\<rparr>
     else (count_access policy c bytes store)\<lparr>read_misses := read_misses c + 1\<rparr>)"
  have sv: "select_victim policy nxt c6 addr = (0, c6)"
    using assms(3-5) by (simp add: select_victim_def)
  have wb: "write_back hacc c6 0 = Inr c6"
    using flags_nonzero by (simp add: write_back_def)
  have g: "linesz c6 = linesz c" "miss_handler c6 = miss_handler c"
    by (simp_all add: c6_def)
  have md: "mark_dirty policy (c6\<lparr>miss_handler := mh\<rparr>) addr = Inl NullDeref" for mh
  proof (rule mark_dirty_miss)
    show "fa_tags (c6\<lparr>miss_handler := mh\<rparr>) = None" using assms(1) by (simp add: c6_def)
    have "hit_way (c6\<lparr>miss_handler := mh\<rparr>) addr = hit_way c addr"
      by (rule hit_way_cong) (simp_all add: c6_def)
    then show "hit_way (c6\<lparr>miss_handler := mh\<rparr>) addr = None" using assms(2) by simp
  qed
  have eq: "access policy nxt hacc c addr bytes store =
     (case write_back hacc c6 0 of
        Inl e \<Rightarrow> Inl e
      | Inr c8 \<Rightarrow>
          (case call_handler hacc c8 (addr AND NOT (of_nat (linesz c8) - 1)) (of_nat (linesz c8)) False of
             Inl e \<Rightarrow> Inl e
           | Inr c9 \<Rightarrow> (if store then mark_dirty policy c9 addr else Inr c9)))"
    using sv by (intro access_miss_unfold assms) (simp add: c6_def)
  show ?thesis
  proof (cases "forward hacc (miss_handler c)
                  [(addr AND NOT (of_nat (linesz c) - 1), of_nat (linesz c), False)]")
    case (Inl e)
    then show ?thesis by (simp add: eq wb call_handler_forward g)
  next
    case (Inr mh)
    then show ?thesis
      unfolding eq by (simp add: wb call_handler_forward g md) (simp add: c6_def)
  qed
qed

lemma first_way_cong_less:
  "(\<And>k. k < w \<Longrightarrow> P k = Q k) \<Longrightarrow> first_way P w i = first_way Q w i"
proof (induction P w i rule: first_way.induct)
  case (1 P w i)
  show ?case
  proof (cases "i < w")
    case True
    then have pq: "P i = Q i" using "1.prems" by simp
    show ?thesis
    proof (cases "P i")
      case True
      with pq \<open>i < w\<close> show ?thesis
        by (simp add: first_way.simps [of P w i] first_way.simps [of Q w i])
    next
      case False
      with \<open>i < w\<close> have "first_way P w (i + 1) = first_way Q w (i + 1)"
        using 1 by blast
      with False pq \<open>i < w\<close> show ?thesis
        by (simp add: first_way.simps [of P w i] first_way.simps [of Q w i])
    qed
  next
    case False
    then show ?thesis
      by (simp add: first_way.simps [of P w i] first_way.simps [of Q w i])
  qed
qed

lemma tag_of_flags: "2 \<le> idx_shift c \<Longrightarrow> tag_of c addr AND (VALID OR DIRTY) = VALID"
  by (rule bit_word_eqI) (auto simp: tag_of_def bit_VALID bit_DIRTY bit_simps dest: bit_imp_le_length)

lemma tag_of_nonzero: "tag_of c addr \<noteq> 0"
proof
  assume "tag_of c addr = 0"
  then have "bit (tag_of c addr) 63 = bit (0 :: 64 word) 63" by simp
  then show False by (simp add: tag_of_def bit_VALID bit_simps)
qed

lemma tag_of_eq_iff:
  assumes "1 \<le> idx_shift c"
  shows "tag_of c a = tag_of c b \<longleftrightarrow> drop_bit (idx_shift c) a = drop_bit (idx_shift c) b"
proof
  assume eq: "tag_of c a = tag_of c b"
  show "drop_bit (idx_shift c) a = drop_bit (idx_shift c) b"
  proof (rule bit_word_eqI)
    fix n assume "n < LENGTH(64)"
    have "bit (tag_of c a) n = bit (tag_of c b) n" using eq by simp
    then show "bit (drop_bit (idx_shift c) a) n = bit (drop_bit (idx_shift c) b) n"
      using assms by (cases "n = 63") (auto simp: tag_of_def bit_VALID bit_simps dest: bit_imp_le_length)
  qed
qed (simp add: tag_of_def)

lemma and_pred_eq_0_iff:
  fixes n :: nat
  shows "n AND (n - 1) = 0 \<longleftrightarrow> n = 0 \<or> (\<exists>k. n = 2 ^ k)"
proof (induction n rule: less_induct)
  case (less n)
  show ?case
  proof (cases "n \<le> 1")
    case True
    then consider "n = 0" | "n = 1" by linarith
    then show ?thesis
    proof cases
      case 1
      then show ?thesis by simp
    next
      case 2
      then have "n = 2 ^ 0" by simp
      with 2 show ?thesis by (metis and_zero_eq diff_self_eq_0)
    qed
  next
    case False
    then have n2: "2 \<le> n" by simp
    have rec: "n AND (n - 1) = of_bool (odd n \<and> odd (n - 1)) + 2 * ((n div 2) AND ((n - 1) div 2))"
      by (rule and_rec)
    show ?thesis
    proof (cases "even n")
      case True
      then obtain m where m: "n = 2 * m" by (auto elim: evenE)
      with n2 have m1: "1 \<le> m" "m < n" by simp_all
      have "(n - 1) div 2 = m - 1" using m m1 by simp
      then have "n AND (n - 1) = 2 * (m AND (m - 1))"
        using rec True m by simp
      then have "n AND (n - 1) = 0 \<longleftrightarrow> m AND (m - 1) = 0" by simp
      also have "\<dots> \<longleftrightarrow> (\<exists>k. m = 2 ^ k)"
        using less.IH [OF m1(2)] m1(1) by simp
      also have "\<dots> \<longleftrightarrow> (\<exists>k. n = 2 ^ k)"
      proof
        assume "\<exists>k. m = 2 ^ k"
        then obtain k where "m = 2 ^ k" ..
        then have "n = 2 ^ Suc k" using m by simp
        then show "\<exists>k. n = 2 ^ k" ..
      next
        assume "\<exists>k. n = 2 ^ k"
        then obtain k where k: "n = 2 ^ k" ..
        with n2 have "k \<noteq> 0" by (cases k) auto
        then obtain k' where "k = Suc k'" by (cases k) auto
        with k m have "m = 2 ^ k'" by simp
        then show "\<exists>k. m = 2 ^ k" ..
      qed
      finally show ?thesis using n2 by simp
    next
      case False
      then have "even (n - 1)" using n2 by simp
      moreover have "(n - 1) div 2 = n div 2" using False by (auto elim!: oddE)
      ultimately have "n AND (n - 1) = 2 * (n div 2)"
        using rec by simp
      then have "n AND (n - 1) \<noteq> 0" using n2 by simp
      moreover have "n \<noteq> 2 ^ k" for k
      proof
        assume k: "n = 2 ^ k"
        with False have "k = 0" by (cases k) auto
        with k n2 show False by simp
      qed
      ultimately show ?thesis using n2 by auto
    qed
  qed
qed

lemma shift_loop_pow2: "shift_loop (2 ^ k) s = s + k"
proof (induction k arbitrary: s)
  case 0
  then show ?case by (simp add: shift_loop.simps [of 1 s] shift_loop.simps [of "Suc 0" s])
next
  case (Suc k)
  have "(0::nat) < 2 ^ k" by simp
  then have gt: "(1::nat) < 2 * 2 ^ k" by linarith
  have half: "drop_bit 1 (2 * 2 ^ k :: nat) = 2 ^ k" by (simp add: drop_bit_eq_div)
  have "shift_loop (2 * 2 ^ k) s = shift_loop (2 ^ k) (s + 1)"
    using gt half by (subst shift_loop.simps) simp
  then show ?case
    using Suc [of "s + 1"] by simp
qed

text \<open>\<^verbatim>\<open>init\<close> on a host that grants every request, written out.\<close>

lemma init_unfold:
  "init s w l g =
     (if s = 0 \<or> s AND (s - 1) \<noteq> 0 then Inl help_exit
      else if l < 8 \<or> l AND (l - 1) \<noteq> 0 then Inl help_exit
      else if 2 ^ 64 \<le> unat (of_nat s * of_nat w :: 64 word) * 8 then Inl AllocFailed
      else Inr \<lparr> sets = s, ways = w, linesz = l,
                 idx_shift = shift_loop l 0,
                 tags = replicate (unat (of_nat s * of_nat w :: 64 word)) 0,
                 fa_tags = None,
                 LRUCount = 0, FIFOCount = 0,
                 LRUTime = replicate (unat (of_nat s * of_nat w :: 64 word)) 0,
                 FIFOTime = replicate (unat (of_nat s * of_nat w :: 64 word)) 0,
                 read_accesses = 0, read_misses = 0, bytes_read = 0,
                 write_accesses = 0, write_misses = 0, bytes_written = 0,
                 writebacks = 0,
                 lfsr = g, miss_handler = None \<rparr>)"
proof -
  have "2 ^ 64 \<le> n * 8" if "2 ^ 64 \<le> n * 4" for n :: nat
    using that by linarith
  then show ?thesis
    by (auto simp: init_def init_alloc_def new_array_def)
qed

lemma init_wf:
  fixes c :: "('g, 'h) cache_sim"
  assumes "init s w l g = Inr c" "0 < w" "s * w < 2 ^ 64" "l < 2 ^ 64"
  shows "wf c \<and> fa_tags c = None"
proof -
  from assms(1) have s: "s \<noteq> 0" "s AND (s - 1) = 0" and l: "8 \<le> l" "l AND (l - 1) = 0"
    by (auto simp: init_unfold split: if_splits)
  then obtain k where k: "l = 2 ^ k"
    using and_pred_eq_0_iff [of l] by auto
  have "k < 64"
  proof (rule ccontr)
    assume "\<not> k < 64"
    then have "(2::nat) ^ 64 \<le> 2 ^ k" by (intro power_increasing) simp_all
    with assms(4) k show False by simp
  qed
  moreover have "3 \<le> k"
  proof (rule ccontr)
    assume "\<not> 3 \<le> k"
    then have "k \<le> 2" by simp
    then have "(2::nat) ^ k \<le> 2 ^ 2" by (intro power_increasing) simp_all
    with l k show False by simp
  qed
  moreover have "unat (of_nat s * of_nat w :: 64 word) = s * w"
  proof -
    have "unat (of_nat (s * w) :: 64 word) = (s * w) mod 2 ^ LENGTH(64)"
      by (rule unat_of_nat)
    also have "\<dots> = s * w"
      using assms(3) by simp
    finally show ?thesis by (simp only: of_nat_mult)
  qed
  ultimately show ?thesis
    using assms(1,2,3) s l k
    by (auto simp: init_unfold wf_def shift_loop_pow2 split: if_splits)
qed

text \<open>Evaluation of the model on closed inputs.\<close>

lemmas eval_defs = access_def count_access_def virt_check_tag_def check_tag_def fa_check_tag_def
  select_victim_def LRU_def FIFO_def victimize_def virt_victimize_def fa_victimize_def
  write_back_def call_handler_def mark_dirty_def or_dirty_def idx_of_def tag_of_def Let_def
  first_way.simps oldest_way.simps VALID_def DIRTY_def

lemma replicate_2: "replicate 2 x = [x, x]"
  by (simp add: numeral_2_eq_2)

lemma replicate_3: "replicate 3 x = [x, x, x]"
  by (simp add: numeral_3_eq_3)

lemma init_1_2_8:
  "init 1 2 8 g = Inr \<lparr> sets = 1, ways = 2, linesz = 8, idx_shift = 3,
                 tags = [0, 0], fa_tags = None, LRUCount = 0, FIFOCount = 0,
                 LRUTime = [0, 0], FIFOTime = [0, 0],
                 read_accesses = 0, read_misses = 0, bytes_read = 0,
                 write_accesses = 0, write_misses = 0, bytes_written = 0,
                 writebacks = 0, lfsr = g, miss_handler = None \<rparr>"
  using shift_loop_pow2 [of 3 0] by (simp add: init_unfold replicate_2)

lemma init_1_3_8:
  "init 1 3 8 g = Inr \<lparr> sets = 1, ways = 3, linesz = 8, idx_shift = 3,
                 tags = [0, 0, 0], fa_tags = None, LRUCount = 0, FIFOCount = 0,
                 LRUTime = [0, 0, 0], FIFOTime = [0, 0, 0],
                 read_accesses = 0, read_misses = 0, bytes_read = 0,
                 write_accesses = 0, write_misses = 0, bytes_written = 0,
                 writebacks = 0, lfsr = g, miss_handler = None \<rparr>"
  using shift_loop_pow2 [of 3 0] by (simp add: init_unfold replicate_3)

lemma demo_reached:
  "(case init 1 2 8 1 of
      Inl e \<Rightarrow> Inl e
    | Inr c \<Rightarrow> access ''R'' fixed_draw recorder (c\<lparr>miss_handler := Some []\<rparr>) 40 8 True) = Inr demo"
  unfolding init_1_2_8 by (simp add: eval_defs fixed_draw_def recorder_def demo_def)

text \<open>Tag words built from a line address, with the flags kept symbolic.\<close>

lemma line_tag_clean: "2 \<le> k \<Longrightarrow> (drop_bit k x OR VALID) AND NOT DIRTY = drop_bit k (x :: 64 word) OR VALID"
  by (rule bit_word_eqI) (auto simp: bit_VALID bit_DIRTY bit_simps dest: bit_imp_le_length)

lemma line_tag_eq_iff:
  "1 \<le> k \<Longrightarrow> (drop_bit k x OR VALID = drop_bit k y OR VALID) \<longleftrightarrow> drop_bit k x = drop_bit k (y :: 64 word)"
  using tag_of_eq_iff [of "\<lparr>sets = 0, ways = 0, linesz = 0, idx_shift = k, tags = [], fa_tags = None,
      LRUCount = 0, FIFOCount = 0, LRUTime = [], FIFOTime = [], read_accesses = 0, read_misses = 0,
      bytes_read = 0, write_accesses = 0, write_misses = 0, bytes_written = 0, writebacks = 0,
      lfsr = (), miss_handler = (None :: unit option)\<rparr>" x y]
  by (simp add: tag_of_def)

lemma line_tag_nonzero: "drop_bit k (x :: 64 word) OR VALID \<noteq> 0" "0 \<noteq> drop_bit k (x :: 64 word) OR VALID"
proof -
  show "drop_bit k x OR VALID \<noteq> 0"
  proof
    assume "drop_bit k x OR VALID = 0"
    then have "bit (drop_bit k x OR VALID) 63 = bit (0 :: 64 word) 63" by simp
    then show False by (simp add: bit_VALID bit_simps)
  qed
  then show "0 \<noteq> drop_bit k x OR VALID" by (rule not_sym)
qed

lemma line_tag_not_dirty:
  "2 \<le> k \<Longrightarrow> (drop_bit k (x :: 64 word) OR VALID) AND (VALID OR DIRTY) \<noteq> VALID OR DIRTY"
proof
  assume k: "2 \<le> k" and "(drop_bit k x OR VALID) AND (VALID OR DIRTY) = VALID OR DIRTY"
  then have "bit ((drop_bit k x OR VALID) AND (VALID OR DIRTY)) 62 = bit (VALID OR DIRTY) 62" by simp
  then show False
    using k by (auto simp: bit_VALID bit_DIRTY bit_simps dest: bit_imp_le_length)
qed

text \<open>The step of the policy counters in one access of a well-formed set-associative
  model: \<open>FIFOCount\<close> moves by one under F; \<open>LRUCount\<close> moves by one on a hit, by two on
  a miss that replaces a line and by three on a miss that fills an empty way.\<close>

lemma policy_counter_step:
  fixes c :: "('g, 'h) cache_sim"
  assumes "wf c" "fa_tags c = None" "access policy nxt hacc c addr bytes store = Inr c'"
  shows "policy = ''F'' \<Longrightarrow> FIFOCount c' = FIFOCount c + 1"
    and "policy = ''L'' \<Longrightarrow> LRUCount c' = LRUCount c +
           (if hit_way c addr \<noteq> None then 1
            else if first_way (\<lambda>i. tags c ! (idx_of c addr * ways c + i) = 0) (ways c) 0 = None then 2
            else 3)"
proof -
  have "(policy = ''F'' \<longrightarrow> FIFOCount c' = FIFOCount c + 1) \<and>
        (policy = ''L'' \<longrightarrow> LRUCount c' = LRUCount c +
           (if hit_way c addr \<noteq> None then 1
            else if first_way (\<lambda>i. tags c ! (idx_of c addr * ways c + i) = 0) (ways c) 0 = None then 2
            else 3))"
  proof (cases "hit_way c addr")
    case (Some j)
    then show ?thesis
      using assms(3) by (auto simp: access_hit [OF assms(2) Some])
  next
    case None
    show ?thesis
    proof (cases "policy = ''L'' \<or> policy = ''F''")
      case True
      then have p: "policy = ''R'' \<or> policy = ''L'' \<or> policy = ''F''" by blast
      from access_miss_good [OF assms(1,2) None p, where nxt = nxt and bytes = bytes and store = store]
      obtain d reqs where d: "FIFOCount d = (if policy = ''F'' then FIFOCount c + 1 else FIFOCount c)"
        "LRUCount d =
           (if policy = ''L''
            then LRUCount c +
                 (if first_way (\<lambda>i. tags c ! (idx_of c addr * ways c + i) = 0) (ways c) 0 = None
                  then 2 else 3)
            else LRUCount c)"
        "access policy nxt hacc c addr bytes store =
           (case forward hacc (miss_handler c) reqs of Inl e \<Rightarrow> Inl e | Inr mh \<Rightarrow> Inr (d\<lparr>miss_handler := mh\<rparr>))"
        by blast
      from d(3) assms(3) obtain mh where "c' = d\<lparr>miss_handler := mh\<rparr>"
        by (auto split: sum.splits)
      with d(1,2) None show ?thesis by auto
    next
      case False
      then show ?thesis by blast
    qed
  qed
  then show "policy = ''F'' \<Longrightarrow> FIFOCount c' = FIFOCount c + 1"
    and "policy = ''L'' \<Longrightarrow> LRUCount c' = LRUCount c +
           (if hit_way c addr \<noteq> None then 1
            else if first_way (\<lambda>i. tags c ! (idx_of c addr * ways c + i) = 0) (ways c) 0 = None then 2
            else 3)"
    by blast+
qed

text \<open>The fully-associative object.\<close>

lemma map_of_map_store: "map_of (map_store k v m) k = Some v"
  by (induction m) auto

lemma access_miss_unfold_fa:
  assumes "fa_tags c = Some m" "map_of m (drop_bit (idx_shift c) addr) = None"
    and "select_victim policy nxt
           (if store then (count_access policy c bytes store)\<lparr>write_misses := write_misses c + 1\<rparr>
            else (count_access policy c bytes store)\<lparr>read_misses := read_misses c + 1\<rparr>) addr = (v, c7)"
  shows "access policy nxt hacc c addr bytes store =
     (case write_back hacc c7 v of
        Inl e \<Rightarrow> Inl e
      | Inr c8 \<Rightarrow>
          (case call_handler hacc c8 (addr AND NOT (of_nat (linesz c8) - 1)) (of_nat (linesz c8)) False of
             Inl e \<Rightarrow> Inl e
           | Inr c9 \<Rightarrow> (if store then mark_dirty policy c9 addr else Inr c9)))"
  using assms
  by (cases store) (simp_all add: access_def virt_check_tag_def fa_check_tag_def Let_def cong: sum.case_cong)

lemma fa_select_victim_R:
  assumes "fa_tags c = Some m"
  shows "\<exists>m'. fa_tags (snd (select_victim ''R'' nxt c addr)) = Some m' \<and>
              map_of m' (drop_bit (idx_shift c) addr) = Some (tag_of c addr)"
    and "idx_shift (snd (select_victim ''R'' nxt c addr)) = idx_shift c"
    and "linesz (snd (select_victim ''R'' nxt c addr)) = linesz c"
    and "miss_handler (snd (select_victim ''R'' nxt c addr)) = miss_handler c"
    and "writebacks (snd (select_victim ''R'' nxt c addr)) = writebacks c"
  using assms
  by (simp_all add: select_victim_def virt_victimize_def fa_victimize_def Let_def map_of_map_store
        split: prod.splits)

lemma mark_dirty_fa:
  assumes "fa_tags c = Some m" "map_of m (drop_bit (idx_shift c) addr) = Some v"
  shows "mark_dirty policy c addr = Inr (or_dirty (MapWay (drop_bit (idx_shift c) addr)) c)"
  using assms by (simp add: mark_dirty_def virt_check_tag_def fa_check_tag_def)

lemma or_dirty_map_handler:
  "(or_dirty (MapWay k) c)\<lparr>miss_handler := mh\<rparr> = or_dirty (MapWay k) (c\<lparr>miss_handler := mh\<rparr>)"
  by (simp add: or_dirty_def)

lemma access_miss_fa_R:
  fixes c :: "('g, 'h) cache_sim" and nxt :: "'g \<Rightarrow> nat \<times> 'g" and addr :: "64 word"
  assumes "fa_tags c = Some m" "map_of m (drop_bit (idx_shift c) addr) = None"
  defines "v \<equiv> fst (select_victim ''R'' nxt c addr)"
  shows "\<exists>c'. writebacks c' = writebacks c + (if v AND (VALID OR DIRTY) = (VALID OR DIRTY) then 1 else 0) \<and>
           (\<forall>hacc. access ''R'' nxt hacc c addr bytes store =
              (case forward hacc (miss_handler c)
                      ((if v AND (VALID OR DIRTY) = (VALID OR DIRTY)
                        then [(push_bit (idx_shift c) (v AND NOT (VALID OR DIRTY)), of_nat (linesz c), True)]
                        else [])
                       @ [(addr AND NOT (of_nat (linesz c) - 1), of_nat (linesz c), False)]) of
                 Inl e \<Rightarrow> Inl e
               | Inr mh \<Rightarrow> Inr (c'\<lparr>miss_handler := mh\<rparr>)))"
proof -
  define c6 where "c6 =
    (if store then (count_access ''R'' c bytes store)\<lparr>write_misses := write_misses c + 1\<rparr>
     else (count_access ''R'' c bytes store)\<lparr>read_misses := read_misses c + 1\<rparr>)"
  obtain v6 c7 where sv: "select_victim ''R'' nxt c6 addr = (v6, c7)"
    by (cases "select_victim ''R'' nxt c6 addr")
  have c7: "c7 = snd (select_victim ''R'' nxt c6 addr)" and v6: "v6 = fst (select_victim ''R'' nxt c6 addr)"
    using sv by simp_all
  have fa6: "fa_tags c6 = Some m" using assms(1) by (simp add: c6_def)
  have "v6 = v"
    unfolding v6 v_def by (rule select_victim_fst_cong) (simp_all add: c6_def)
  note fr = fa_select_victim_R [OF fa6, of nxt addr, folded c7]
  have g7: "idx_shift c7 = idx_shift c" "linesz c7 = linesz c" "miss_handler c7 = miss_handler c"
    "writebacks c7 = writebacks c"
    using fr(2-5) by (simp_all add: c6_def)
  have i6: "idx_shift c6 = idx_shift c" "tag_of c6 addr = tag_of c addr"
    by (simp_all add: c6_def tag_of_def)
  obtain m' where m': "fa_tags c7 = Some m'" "map_of m' (drop_bit (idx_shift c) addr) = Some (tag_of c addr)"
    using fr(1) i6 by auto
  define k :: "64 word" where "k = (if v AND (VALID OR DIRTY) = (VALID OR DIRTY) then 1 else 0)"
  define c8 where "c8 = c7\<lparr>writebacks := writebacks c7 + k\<rparr>"
  define c' where "c' = (if store then or_dirty (MapWay (drop_bit (idx_shift c) addr)) c8 else c8)"
  have wb: "writebacks c' = writebacks c + k"
    using g7 by (simp add: c'_def c8_def or_dirty_def)
  define wbreq where "wbreq =
    (if v AND (VALID OR DIRTY) = (VALID OR DIRTY)
     then [(push_bit (idx_shift c) (v AND NOT (VALID OR DIRTY)), (of_nat (linesz c) :: 64 word), True)]
     else [])"
  define fillreq where "fillreq = (addr AND NOT (of_nat (linesz c) - 1), (of_nat (linesz c) :: 64 word), False)"
  have "access ''R'' nxt hacc c addr bytes store =
      (case forward hacc (miss_handler c) (wbreq @ [fillreq]) of
         Inl e \<Rightarrow> Inl e
       | Inr mh \<Rightarrow> Inr (c'\<lparr>miss_handler := mh\<rparr>))" for hacc
  proof -
    have md: "mark_dirty ''R'' (c8\<lparr>miss_handler := mh\<rparr>) addr =
        Inr ((or_dirty (MapWay (drop_bit (idx_shift c) addr)) c8)\<lparr>miss_handler := mh\<rparr>)" for mh
    proof -
      have "fa_tags (c8\<lparr>miss_handler := mh\<rparr>) = Some m'"
        using m'(1) by (simp add: c8_def)
      moreover have "map_of m' (drop_bit (idx_shift (c8\<lparr>miss_handler := mh\<rparr>)) addr) = Some (tag_of c addr)"
        using m'(2) g7 by (simp add: c8_def)
      ultimately have "mark_dirty ''R'' (c8\<lparr>miss_handler := mh\<rparr>) addr =
          Inr (or_dirty (MapWay (drop_bit (idx_shift (c8\<lparr>miss_handler := mh\<rparr>)) addr)) (c8\<lparr>miss_handler := mh\<rparr>))"
        by (rule mark_dirty_fa)
      then show ?thesis
        using g7 by (simp add: or_dirty_map_handler c8_def)
    qed
    have fin: "(if store then mark_dirty ''R'' (c8\<lparr>miss_handler := mh\<rparr>) addr else Inr (c8\<lparr>miss_handler := mh\<rparr>))
        = Inr (c'\<lparr>miss_handler := mh\<rparr>)" for mh
      by (simp add: md c'_def)
    have wb_eq: "write_back hacc c7 v =
        (case forward hacc (miss_handler c) wbreq of
           Inl e \<Rightarrow> Inl e
         | Inr mh \<Rightarrow> Inr (c8\<lparr>miss_handler := mh\<rparr>))"
      unfolding write_back_forward [of hacc c7 v] g7 wbreq_def [symmetric] k_def [symmetric]
      by (simp add: c8_def g7 split: sum.splits)
    have ch_eq: "call_handler hacc (c8\<lparr>miss_handler := mh\<rparr>)
           (addr AND NOT (of_nat (linesz c8) - 1)) (of_nat (linesz c8)) False =
        (case forward hacc mh [fillreq] of
           Inl e \<Rightarrow> Inl e
         | Inr mh' \<Rightarrow> Inr (c8\<lparr>miss_handler := mh'\<rparr>))" for mh
      unfolding call_handler_forward fillreq_def
      by (simp add: c8_def g7 split: sum.splits)
    have "access ''R'' nxt hacc c addr bytes store =
       (case write_back hacc c7 v of
          Inl e \<Rightarrow> Inl e
        | Inr c8 \<Rightarrow>
            (case call_handler hacc c8 (addr AND NOT (of_nat (linesz c8) - 1)) (of_nat (linesz c8)) False of
               Inl e \<Rightarrow> Inl e
             | Inr c9 \<Rightarrow> (if store then mark_dirty ''R'' c9 addr else Inr c9)))"
      using sv \<open>v6 = v\<close> by (intro access_miss_unfold_fa [OF assms(1,2)]) (simp add: c6_def)
    also have "\<dots> =
       (case forward hacc (miss_handler c) (wbreq @ [fillreq]) of
         Inl e \<Rightarrow> Inl e
       | Inr mh \<Rightarrow> Inr (c'\<lparr>miss_handler := mh\<rparr>))"
    proof (cases "forward hacc (miss_handler c) wbreq")
      case (Inl e)
      then show ?thesis by (simp add: wb_eq forward_append)
    next
      case (Inr mh1)
      show ?thesis
      proof (cases "forward hacc mh1 [fillreq]")
        case (Inl e)
        then show ?thesis using Inr by (simp add: wb_eq forward_append ch_eq)
      next
        case (Inr mh2)
        then show ?thesis
          using \<open>forward hacc (miss_handler c) wbreq = Inr mh1\<close>
          by (simp add: wb_eq forward_append ch_eq fin)
      qed
    qed
    finally show ?thesis .
  qed
  with wb show ?thesis unfolding k_def wbreq_def fillreq_def by blast
qed

text \<open>Under the policies L and F the map of a fully-associative object is never filled:
  \<^verbatim>\<open>LRU\<close> and \<^verbatim>\<open>FIFO\<close> write the array of the base class. Every load misses, and every
  store stops at the null pointer after the requests to the next level.\<close>

lemma fa_policy_LF_always_misses:
  fixes c :: "('g, 'h) cache_sim"
  assumes "fa_tags c = Some []" "policy = ''L'' \<or> policy = ''F''"
  shows "\<exists>c' reqs. fa_tags c' = Some [] \<and> read_misses c' = read_misses c + 1 \<and>
           (\<forall>hacc. access policy nxt hacc c addr bytes False =
              (case forward hacc (miss_handler c) reqs of
                 Inl e \<Rightarrow> Inl e
               | Inr mh \<Rightarrow> Inr (c'\<lparr>miss_handler := mh\<rparr>)))"
    and "\<exists>reqs. \<forall>hacc. access policy nxt hacc c addr bytes True =
              (case forward hacc (miss_handler c) reqs of
                 Inl e \<Rightarrow> Inl e
               | Inr mh \<Rightarrow> Inl NullDeref)"
proof -
  have body: "\<exists>c' reqs. fa_tags c' = Some [] \<and>
           read_misses c' = (if store then read_misses c else read_misses c + 1) \<and>
           (\<forall>hacc. access policy nxt hacc c addr bytes store =
              (case forward hacc (miss_handler c) reqs of
                 Inl e \<Rightarrow> Inl e
               | Inr mh \<Rightarrow> (if store then Inl NullDeref else Inr (c'\<lparr>miss_handler := mh\<rparr>))))" for store
  proof -
    define c6 where "c6 =
      (if store then (count_access policy c bytes store)\<lparr>write_misses := write_misses c + 1\<rparr>
       else (count_access policy c bytes store)\<lparr>read_misses := read_misses c + 1\<rparr>)"
    obtain v c7 where sv: "select_victim policy nxt c6 addr = (v, c7)"
      by (cases "select_victim policy nxt c6 addr")
    have g7: "fa_tags c7 = Some []" "idx_shift c7 = idx_shift c" "linesz c7 = linesz c"
      "miss_handler c7 = miss_handler c"
      "read_misses c7 = (if store then read_misses c else read_misses c + 1)"
      using sv assms
      by (auto simp: select_victim_def LRU_def FIFO_def Let_def c6_def split: option.splits prod.splits)
    define k :: "64 word" where "k = (if v AND (VALID OR DIRTY) = (VALID OR DIRTY) then 1 else 0)"
    define c8 where "c8 = c7\<lparr>writebacks := writebacks c7 + k\<rparr>"
    define wbreq where "wbreq =
      (if v AND (VALID OR DIRTY) = (VALID OR DIRTY)
       then [(push_bit (idx_shift c) (v AND NOT (VALID OR DIRTY)), (of_nat (linesz c) :: 64 word), True)]
       else [])"
    define fillreq where "fillreq = (addr AND NOT (of_nat (linesz c) - 1), (of_nat (linesz c) :: 64 word), False)"
    have "access policy nxt hacc c addr bytes store =
        (case forward hacc (miss_handler c) (wbreq @ [fillreq]) of
           Inl e \<Rightarrow> Inl e
         | Inr mh \<Rightarrow> (if store then Inl NullDeref else Inr (c8\<lparr>miss_handler := mh\<rparr>)))" for hacc
    proof -
      have md: "mark_dirty policy (c8\<lparr>miss_handler := mh\<rparr>) addr = Inl NullDeref" for mh
        using g7(1) by (simp add: mark_dirty_def virt_check_tag_def fa_check_tag_def c8_def)
      have wb_eq: "write_back hacc c7 v =
          (case forward hacc (miss_handler c) wbreq of
             Inl e \<Rightarrow> Inl e
           | Inr mh \<Rightarrow> Inr (c8\<lparr>miss_handler := mh\<rparr>))"
        unfolding write_back_forward [of hacc c7 v] g7 wbreq_def [symmetric] k_def [symmetric]
        by (simp add: c8_def g7 split: sum.splits)
      have ch_eq: "call_handler hacc (c8\<lparr>miss_handler := mh\<rparr>)
             (addr AND NOT (of_nat (linesz c8) - 1)) (of_nat (linesz c8)) False =
          (case forward hacc mh [fillreq] of
             Inl e \<Rightarrow> Inl e
           | Inr mh' \<Rightarrow> Inr (c8\<lparr>miss_handler := mh'\<rparr>))" for mh
        unfolding call_handler_forward fillreq_def
        by (simp add: c8_def g7 split: sum.splits)
      have "access policy nxt hacc c addr bytes store =
         (case write_back hacc c7 v of
            Inl e \<Rightarrow> Inl e
          | Inr c8 \<Rightarrow>
              (case call_handler hacc c8 (addr AND NOT (of_nat (linesz c8) - 1)) (of_nat (linesz c8)) False of
                 Inl e \<Rightarrow> Inl e
               | Inr c9 \<Rightarrow> (if store then mark_dirty policy c9 addr else Inr c9)))"
        using sv by (intro access_miss_unfold_fa [where m = "[]"] assms) (simp_all add: c6_def)
      also have "\<dots> =
         (case forward hacc (miss_handler c) (wbreq @ [fillreq]) of
           Inl e \<Rightarrow> Inl e
         | Inr mh \<Rightarrow> (if store then Inl NullDeref else Inr (c8\<lparr>miss_handler := mh\<rparr>)))"
      proof (cases "forward hacc (miss_handler c) wbreq")
        case (Inl e)
        then show ?thesis by (simp add: wb_eq forward_append)
      next
        case (Inr mh1)
        show ?thesis
        proof (cases "forward hacc mh1 [fillreq]")
          case (Inl e)
          then show ?thesis using Inr by (simp add: wb_eq forward_append ch_eq)
        next
          case (Inr mh2)
          then show ?thesis
            using \<open>forward hacc (miss_handler c) wbreq = Inr mh1\<close>
            by (simp add: wb_eq forward_append ch_eq md)
        qed
      qed
      finally show ?thesis .
    qed
    moreover have "fa_tags c8 = Some []" "read_misses c8 = (if store then read_misses c else read_misses c + 1)"
      using g7 by (simp_all add: c8_def)
    ultimately show ?thesis by blast
  qed
  from body [of False] show "\<exists>c' reqs. fa_tags c' = Some [] \<and> read_misses c' = read_misses c + 1 \<and>
           (\<forall>hacc. access policy nxt hacc c addr bytes False =
              (case forward hacc (miss_handler c) reqs of
                 Inl e \<Rightarrow> Inl e
               | Inr mh \<Rightarrow> Inr (c'\<lparr>miss_handler := mh\<rparr>)))"
    by (simp cong: sum.case_cong)
  from body [of True] show "\<exists>reqs. \<forall>hacc. access policy nxt hacc c addr bytes True =
              (case forward hacc (miss_handler c) reqs of
                 Inl e \<Rightarrow> Inl e
               | Inr mh \<Rightarrow> Inl NullDeref)"
    by (auto cong: sum.case_cong)
qed

lemma init_valid:
  fixes c0 :: "('g, 'h) cache_sim"
  assumes "init s w l g = Inr c0" "s * w < 2 ^ 64" "l < 2 ^ 64"
  shows "\<exists>k. 3 \<le> k \<and> k < 64 \<and> l = 2 ^ k \<and>
           c0 = \<lparr> sets = s, ways = w, linesz = l, idx_shift = k,
                  tags = replicate (s * w) 0, fa_tags = None, LRUCount = 0, FIFOCount = 0,
                  LRUTime = replicate (s * w) 0, FIFOTime = replicate (s * w) 0,
                  read_accesses = 0, read_misses = 0, bytes_read = 0,
                  write_accesses = 0, write_misses = 0, bytes_written = 0,
                  writebacks = 0, lfsr = g, miss_handler = None \<rparr>"
proof -
  from assms(1) have l: "8 \<le> l" "l AND (l - 1) = 0"
    by (auto simp: init_unfold split: if_splits)
  then obtain k where k: "l = 2 ^ k"
    using and_pred_eq_0_iff [of l] by auto
  have "k < 64"
  proof (rule ccontr)
    assume "\<not> k < 64"
    then have "(2::nat) ^ 64 \<le> 2 ^ k" by (intro power_increasing) simp_all
    with assms(3) k show False by simp
  qed
  moreover have "3 \<le> k"
  proof (rule ccontr)
    assume "\<not> 3 \<le> k"
    then have "k \<le> 2" by simp
    then have "(2::nat) ^ k \<le> 2 ^ 2" by (intro power_increasing) simp_all
    with l k show False by simp
  qed
  moreover have "unat (of_nat s * of_nat w :: 64 word) = s * w"
  proof -
    have "unat (of_nat (s * w) :: 64 word) = (s * w) mod 2 ^ LENGTH(64)"
      by (rule unat_of_nat)
    also have "\<dots> = s * w"
      using assms(2) by simp
    finally show ?thesis by (simp only: of_nat_mult)
  qed
  ultimately show ?thesis
    using assms(1) k by (auto simp: init_unfold shift_loop_pow2 split: if_splits)
qed

text \<open>
  The store path on a well-formed set-associative state, which has at least one way: with
  a policy string among R, L and F, the victim selection stores
  \<open>(addr >> idx_shift) | VALID\<close> in a way of the set of \<open>addr\<close>, so that the lookup made
  afterwards finds a slot; hence a store never takes the null branch of
  \<^verbatim>\<open>*check_tag(addr) |= DIRTY\<close> (it can only stop on a fault of the next level). With
  any other policy string nothing is selected or installed, and a store that misses
  dereferences the null pointer once the fill request has returned.
\<close>

lemma relookup_finds_new_line:
  fixes c :: "('g, 'h) cache_sim"
  assumes "wf c" "fa_tags c = None"
  shows "(policy = ''R'' \<or> policy = ''L'' \<or> policy = ''F'' \<longrightarrow>
           (\<exists>way<ways c. tags (snd (select_victim policy nxt c addr)) ! (idx_of c addr * ways c + way)
                            = drop_bit (idx_shift c) addr OR VALID) \<and>
           fst (check_tag policy (snd (select_victim policy nxt c addr)) addr) \<noteq> None) \<and>
    (policy = ''R'' \<or> policy = ''L'' \<or> policy = ''F'' \<longrightarrow>
           (\<forall>h a n s. hacc h a n s \<noteq> Inl NullDeref) \<longrightarrow>
           access policy nxt hacc c addr bytes True \<noteq> Inl NullDeref) \<and>
    (policy \<noteq> ''R'' \<and> policy \<noteq> ''L'' \<and> policy \<noteq> ''F'' \<longrightarrow>
           fst (check_tag policy c addr) = None \<longrightarrow>
           select_victim policy nxt c addr = (0, c) \<and>
           access policy nxt hacc c addr bytes True =
             (case forward hacc (miss_handler c)
                     [(addr AND NOT (of_nat (linesz c) - 1), of_nat (linesz c), False)] of
                Inl e \<Rightarrow> Inl e
              | Inr mh \<Rightarrow> Inl NullDeref))"
proof -
  have a: "policy = ''R'' \<or> policy = ''L'' \<or> policy = ''F'' \<longrightarrow>
           (\<exists>way<ways c. tags (snd (select_victim policy nxt c addr)) ! (idx_of c addr * ways c + way)
                            = drop_bit (idx_shift c) addr OR VALID) \<and>
           fst (check_tag policy (snd (select_victim policy nxt c addr)) addr) \<noteq> None"
  proof
    assume p: "policy = ''R'' \<or> policy = ''L'' \<or> policy = ''F''"
    let ?c' = "snd (select_victim policy nxt c addr)"
    obtain way where way: "way < ways c"
      "tags ?c' = (tags c)[idx_of c addr * ways c + way := tag_of c addr]"
      using select_victim_installs [OF assms p, of nxt addr] by auto
    have "idx_of c addr * ways c + way < length (tags c)"
      using assms(1) way(1) slot_in_range [of c way addr] by (simp add: wf_def)
    then have "tags ?c' ! (idx_of c addr * ways c + way) = drop_bit (idx_shift c) addr OR VALID"
      using way(2) by (simp add: tag_of_def)
    moreover obtain j where "hit_way ?c' addr = Some j"
      using hit_way_after_install [OF assms(1) way] select_victim_frame [OF assms(2), of policy nxt addr]
      by auto
    ultimately show "(\<exists>way<ways c. tags ?c' ! (idx_of c addr * ways c + way)
                            = drop_bit (idx_shift c) addr OR VALID) \<and>
           fst (check_tag policy ?c' addr) \<noteq> None"
      using way(1) by (auto simp: fst_check_tag)
  qed
  have b: "policy = ''R'' \<or> policy = ''L'' \<or> policy = ''F'' \<longrightarrow>
           (\<forall>h a n s. hacc h a n s \<noteq> Inl NullDeref) \<longrightarrow>
           access policy nxt hacc c addr bytes True \<noteq> Inl NullDeref"
  proof (intro impI)
    assume p: "policy = ''R'' \<or> policy = ''L'' \<or> policy = ''F''"
      and h: "\<forall>h a n s. hacc h a n s \<noteq> Inl NullDeref"
    show "access policy nxt hacc c addr bytes True \<noteq> Inl NullDeref"
    proof (cases "hit_way c addr")
      case (Some j)
      then show ?thesis using assms(2) by (simp add: access_hit)
    next
      case None
      from access_miss_good [OF assms None p, where nxt = nxt and bytes = bytes and store = True]
      obtain c' reqs where "access policy nxt hacc c addr bytes True =
          (case forward hacc (miss_handler c) reqs of Inl e \<Rightarrow> Inl e | Inr mh \<Rightarrow> Inr (c'\<lparr>miss_handler := mh\<rparr>))"
        by blast
      then show ?thesis
        using h forward_fault [of hacc "miss_handler c" reqs NullDeref]
        by (auto split: sum.splits)
    qed
  qed
  have c: "policy \<noteq> ''R'' \<and> policy \<noteq> ''L'' \<and> policy \<noteq> ''F'' \<longrightarrow>
           fst (check_tag policy c addr) = None \<longrightarrow>
           select_victim policy nxt c addr = (0, c) \<and>
           access policy nxt hacc c addr bytes True =
             (case forward hacc (miss_handler c)
                     [(addr AND NOT (of_nat (linesz c) - 1), of_nat (linesz c), False)] of
                Inl e \<Rightarrow> Inl e
              | Inr mh \<Rightarrow> Inl NullDeref)"
    using assms(2)
    by (auto simp: fst_check_tag select_victim_def access_miss_bad_policy split: sum.splits)
  from a b c show ?thesis by blast
qed

lemma relookup_finds_new_line_demo:
  "fst (check_tag ''R'' (snd (select_victim ''R'' fixed_draw demo 0)) 0) \<noteq> None \<and>
   access ''R'' fixed_draw recorder demo 0 8 True \<noteq> Inl NullDeref \<and>
   access ''X'' fixed_draw recorder demo 0 8 True = Inl NullDeref"
proof -
  have wf: "wf demo" by (simp add: wf_def demo_def)
  have sa: "fa_tags demo = None" by (simp add: demo_def)
  have miss: "fst (check_tag ''X'' demo 0) = None"
    by (simp add: check_tag_def idx_of_def tag_of_def demo_def first_way.simps VALID_def DIRTY_def)
  have rec: "\<forall>h a n s. recorder h a n s \<noteq> Inl NullDeref" by (simp add: recorder_def)
  show ?thesis
    using relookup_finds_new_line [OF wf sa, of "''R''" fixed_draw 0 recorder 8]
      relookup_finds_new_line [OF wf sa, of "''X''" fixed_draw 0 recorder 8] miss rec
    by (simp add: demo_def recorder_def)
qed

section \<open>The claims\<close>

text \<open>
  Claim C1. Take an access that misses, on the set-associative object under any of the
  policies R, L, F or on the fully-associative object under R, and let \<open>victim\<close> be the
  tag word of the entry the policy selects. The access sends to the next level, if there
  is one, first the write-back \<open>(victim without its flags << idx_shift, linesz, store)\<close>
  when the victim is valid and dirty, then the fill request
  \<open>(line address of addr, linesz, load)\<close>, and nothing else; it returns after both, with
  the state the next level has reached. The write-back counter grows by one exactly when
  the victim is valid and dirty, and not otherwise.
\<close>

theorem C1_dirty_victim_written_back:
  fixes c :: "('g, 'h) cache_sim" and nxt :: "'g \<Rightarrow> nat \<times> 'g" and policy :: string and addr :: "64 word"
  assumes "wf c"
    and "policy = ''R'' \<or> (fa_tags c = None \<and> (policy = ''L'' \<or> policy = ''F''))"
    and "fst (virt_check_tag policy c addr) = None"
  defines "victim \<equiv> fst (select_victim policy nxt c addr)"
  shows "\<exists>c'. writebacks c' = writebacks c + (if victim AND (VALID OR DIRTY) = (VALID OR DIRTY) then 1 else 0) \<and>
           (\<forall>hacc. access policy nxt hacc c addr bytes store =
              (case forward hacc (miss_handler c)
                      ((if victim AND (VALID OR DIRTY) = (VALID OR DIRTY)
                        then [(push_bit (idx_shift c) (victim AND NOT (VALID OR DIRTY)), of_nat (linesz c), True)]
                        else [])
                       @ [(addr AND NOT (of_nat (linesz c) - 1), of_nat (linesz c), False)]) of
                 Inl e \<Rightarrow> Inl e
               | Inr mh \<Rightarrow> Inr (c'\<lparr>miss_handler := mh\<rparr>)))"
proof (cases "fa_tags c")
  case None
  then have "hit_way c addr = None"
    using assms(3) by (simp add: virt_check_tag_def fst_check_tag)
  moreover have "policy = ''R'' \<or> policy = ''L'' \<or> policy = ''F''"
    using assms(2) by blast
  ultimately show ?thesis
    using access_miss_good [OF assms(1) None, where nxt = nxt and bytes = bytes and store = store
        and policy = policy and addr = addr]
    unfolding victim_def by blast
next
  case (Some m)
  then have p: "policy = ''R''"
    using assms(2) by auto
  have "map_of m (drop_bit (idx_shift c) addr) = None"
    using assms(3) Some by (simp add: virt_check_tag_def fa_check_tag_def split: option.splits)
  from access_miss_fa_R [OF Some this, where nxt = nxt and bytes = bytes and store = store]
  show ?thesis unfolding victim_def p by blast
qed

theorem C1_dirty_victim_witness:
  "(\<exists>c'. writebacks c' = 1 \<and>
          access ''R'' fixed_draw recorder demo 0 8 False =
            Inr (c'\<lparr>miss_handler := Some [(40, 8, False), (40, 8, True), (0, 8, False)]\<rparr>)) \<and>
   (\<exists>c'. writebacks c' = 1 \<and>
          access ''R'' fixed_draw recorder
              (demo\<lparr>fa_tags := Some [(5, 5 OR VALID OR DIRTY), (6, 6 OR VALID)], lfsr := 0\<rparr>) 0 8 False =
            Inr (c'\<lparr>miss_handler := Some [(40, 8, False), (40, 8, True), (0, 8, False)]\<rparr>))"
proof -
  let ?fa = "demo\<lparr>fa_tags := Some [(5, 5 OR VALID OR DIRTY), (6, 6 OR VALID)], lfsr := 0\<rparr>"
  have wf: "wf demo" "wf ?fa" by (simp_all add: wf_def demo_def)
  have p: "''R'' = ''R'' \<or> (fa_tags x = None \<and> (''R'' = ''L'' \<or> ''R'' = ''F''))"
    for x :: "(nat, (64 word \<times> 64 word \<times> bool) list) cache_sim"
    by simp
  have miss: "fst (virt_check_tag ''R'' demo 0) = None" "fst (virt_check_tag ''R'' ?fa 0) = None"
    by (simp_all add: virt_check_tag_def check_tag_def fa_check_tag_def idx_of_def tag_of_def demo_def
          first_way.simps VALID_def DIRTY_def)
  have v: "fst (select_victim ''R'' fixed_draw demo 0) = 5 OR VALID OR DIRTY"
    "fst (select_victim ''R'' fixed_draw ?fa 0) = 5 OR VALID OR DIRTY"
    by (simp_all add: select_victim_def virt_victimize_def victimize_def fa_victimize_def
          fixed_draw_def demo_def idx_of_def Let_def)
  obtain c1 where c1: "writebacks c1 = writebacks demo + 1"
    "access ''R'' fixed_draw recorder demo 0 8 False =
       Inr (c1\<lparr>miss_handler := Some [(40, 8, False), (40, 8, True), (0, 8, False)]\<rparr>)"
    using C1_dirty_victim_written_back [OF wf(1) p miss(1), where nxt = fixed_draw and bytes = 8 and store = False]
    unfolding v by (auto simp: VALID_def DIRTY_def demo_def recorder_def)
  obtain c2 where c2: "writebacks c2 = writebacks ?fa + 1"
    "access ''R'' fixed_draw recorder ?fa 0 8 False =
       Inr (c2\<lparr>miss_handler := Some [(40, 8, False), (40, 8, True), (0, 8, False)]\<rparr>)"
    using C1_dirty_victim_written_back [OF wf(2) p miss(2), where nxt = fixed_draw and bytes = 8 and store = False]
    unfolding v by (auto simp: VALID_def DIRTY_def demo_def recorder_def)
  from c1 c2 show ?thesis by (auto simp: demo_def)
qed

text \<open>
  Claim C2 on closed runs, two loads of address 0 under the policies L and F. The
  set-associative object with one set misses and then hits. The fully-associative object
  of the same geometry misses twice: \<^verbatim>\<open>LRU\<close> and \<^verbatim>\<open>FIFO\<close> install the line in the
  array of the base class, while \<^verbatim>\<open>fa_cache_sim_t::check_tag\<close> looks in the map, which
  only \<^verbatim>\<open>fa_cache_sim_t::victimize\<close> fills. A store to it stops at the null pointer.
  \<^verbatim>\<open>construct\<close> builds the fully-associative object for one set of eight ways.
\<close>

theorem C2_fully_associative_never_hits:
  fixes g :: 'g and hacc :: "'h \<Rightarrow> 64 word \<Rightarrow> 64 word \<Rightarrow> bool \<Rightarrow> fault + 'h"
  shows "(case init 1 2 8 g of Inl e \<Rightarrow> Inl e
    | Inr c \<Rightarrow> hit_sequence ''L'' nxt hacc c [(0, b1, False), (0, b2, False)]) = Inr [False, True] \<and>
   (case fa_init 2 8 g of Inl e \<Rightarrow> Inl e
    | Inr c \<Rightarrow> hit_sequence ''L'' nxt hacc c [(0, b1, False), (0, b2, False)]) = Inr [False, False] \<and>
   (case init 1 2 8 g of Inl e \<Rightarrow> Inl e
    | Inr c \<Rightarrow> hit_sequence ''F'' nxt hacc c [(0, b1, False), (0, b2, False)]) = Inr [False, True] \<and>
   (case fa_init 2 8 g of Inl e \<Rightarrow> Inl e
    | Inr c \<Rightarrow> hit_sequence ''F'' nxt hacc c [(0, b1, False), (0, b2, False)]) = Inr [False, False] \<and>
   (case fa_init 2 8 g of Inl e \<Rightarrow> Inl e
    | Inr c \<Rightarrow> map_sum id fa_tags (run_trace ''L'' nxt hacc c [(0, b1, False), (0, b2, False)])) = Inr (Some []) \<and>
   (case fa_init 2 8 g of Inl e \<Rightarrow> Inl e
    | Inr c \<Rightarrow> run_trace ''L'' nxt hacc c [(0, b1, True)]) = Inl NullDeref \<and>
   (construct 1 8 8 g :: fault + ('g, 'h) cache_sim) = fa_init 8 8 g \<and>
   (case construct 1 8 8 g of Inl e \<Rightarrow> Inl e
    | Inr c \<Rightarrow> hit_sequence ''L'' nxt hacc c [(0, b1, False), (0, b2, False)]) = Inr [False, False]"
proof -
  have fa2: "fa_init 2 8 g = Inr \<lparr> sets = 1, ways = 2, linesz = 8, idx_shift = 3,
                 tags = [0, 0], fa_tags = Some [], LRUCount = 0, FIFOCount = 0,
                 LRUTime = [0, 0], FIFOTime = [0, 0],
                 read_accesses = 0, read_misses = 0, bytes_read = 0,
                 write_accesses = 0, write_misses = 0, bytes_written = 0,
                 writebacks = 0, lfsr = g, miss_handler = (None :: 'h option) \<rparr>"
    unfolding fa_init_def init_1_2_8 by simp
  have c8: "(construct 1 8 8 g :: fault + ('g, 'h) cache_sim) = fa_init 8 8 g"
    by (simp add: construct_def)
  have fa8: "fa_init 8 8 g = Inr \<lparr> sets = 1, ways = 8, linesz = 8, idx_shift = 3,
                 tags = replicate 8 0, fa_tags = Some [], LRUCount = 0, FIFOCount = 0,
                 LRUTime = replicate 8 0, FIFOTime = replicate 8 0,
                 read_accesses = 0, read_misses = 0, bytes_read = 0,
                 write_accesses = 0, write_misses = 0, bytes_written = 0,
                 writebacks = 0, lfsr = g, miss_handler = (None :: 'h option) \<rparr>"
    using shift_loop_pow2 [of 3 0] by (simp add: fa_init_def init_unfold)
  show ?thesis
    unfolding c8 fa8 fa2 init_1_2_8 by (simp add: eval_defs)
qed

text \<open>
  Claim C3 on a closed run: one set, two ways, lines of 8 bytes, loads at 0, 8, 0, 16.
  Under the policy F the counter \<open>FIFOCount\<close> is 1, 2, 3, 4 after the four accesses, one
  step for each. Under the policy L the counter \<open>LRUCount\<close> is 3, 6, 7, 9: \<^verbatim>\<open>LRU\<close>
  increments it again, twice when it fills an empty way (accesses 1 and 2) and once when
  it replaces a line (access 4); only the hit (access 3) adds exactly one.
\<close>

theorem C3_policy_counter_steps:
  "map (\<lambda>tr. case init 1 2 8 g of Inl e \<Rightarrow> Inl e
              | Inr c \<Rightarrow> map_sum id LRUCount (run_trace ''L'' nxt hacc c tr))
     [[], [(0, b1, False)], [(0, b1, False), (8, b2, False)],
      [(0, b1, False), (8, b2, False), (0, b3, False)],
      [(0, b1, False), (8, b2, False), (0, b3, False), (16, b4, False)]]
   = [Inr 0, Inr 3, Inr 6, Inr 7, Inr 9] \<and>
   map (\<lambda>tr. case init 1 2 8 g of Inl e \<Rightarrow> Inl e
              | Inr c \<Rightarrow> map_sum id FIFOCount (run_trace ''F'' nxt hacc c tr))
     [[], [(0, b1, False)], [(0, b1, False), (8, b2, False)],
      [(0, b1, False), (8, b2, False), (0, b3, False)],
      [(0, b1, False), (8, b2, False), (0, b3, False), (16, b4, False)]]
   = [Inr 0, Inr 1, Inr 2, Inr 3, Inr 4]"
  unfolding init_1_2_8 by (simp add: eval_defs)

text \<open>
  Claim C4. On the set-associative model, an access that hits at slot \<open>j\<close> returns; under
  the policy L the stamp of slot \<open>j\<close> in \<open>LRUTime\<close> becomes the value the counter
  \<open>LRUCount\<close> has in this access (one more than before), and no other stamp changes; under
  the policy F neither stamp array changes, so \<open>FIFOTime\<close> holds insertion times only.
\<close>

theorem C4_hit_restamps_lru_not_fifo:
  fixes c :: "('g, 'h) cache_sim"
  assumes "wf c" "fa_tags c = None" "fst (check_tag policy c addr) = Some (ArrayWay j)"
  shows "\<exists>c'. access policy nxt hacc c addr bytes store = Inr c' \<and>
           j < length (LRUTime c) \<and>
           FIFOTime c' = FIFOTime c \<and>
           (policy = ''L'' \<longrightarrow>
              LRUCount c' = LRUCount c + 1 \<and>
              LRUTime c' = (LRUTime c)[j := LRUCount c'] \<and>
              LRUTime c' ! j = LRUCount c') \<and>
           (policy = ''F'' \<longrightarrow> LRUTime c' = LRUTime c)"
proof -
  have h: "hit_way c addr = Some j"
    using assms(3) by (auto simp: fst_check_tag)
  obtain i where i: "i < ways c" "j = idx_of c addr * ways c + i"
    using hit_way_SomeD [OF h] by blast
  have len: "j < length (LRUTime c)"
    using assms(1) i slot_in_range [of c i addr] by (simp add: wf_def)
  show ?thesis
    using len by (simp add: access_hit [OF assms(2) h])
qed

theorem C4_hit_restamps_witness:
  "(\<exists>c'. access ''L'' fixed_draw recorder (demo\<lparr>LRUCount := 6, LRUTime := [0, 3]\<rparr>) 40 8 False = Inr c' \<and>
          LRUCount c' = 7 \<and> LRUTime c' = [0, 7]) \<and>
   (\<exists>c'. access ''F'' fixed_draw recorder (demo\<lparr>FIFOCount := 6, FIFOTime := [0, 3]\<rparr>) 40 8 False = Inr c' \<and>
          FIFOCount c' = 7 \<and> FIFOTime c' = [0, 3])"
proof -
  let ?l = "demo\<lparr>LRUCount := 6, LRUTime := [0, 3]\<rparr>"
  let ?f = "demo\<lparr>FIFOCount := 6, FIFOTime := [0, 3]\<rparr>"
  have wf: "wf ?l" "wf ?f" by (simp_all add: wf_def demo_def)
  have sa: "fa_tags ?l = None" "fa_tags ?f = None" by (simp_all add: demo_def)
  have h: "fst (check_tag p ?l 40) = Some (ArrayWay 1)" "fst (check_tag p ?f 40) = Some (ArrayWay 1)" for p
    by (simp_all add: fst_check_tag hit_way_def idx_of_def tag_of_def demo_def first_way.simps VALID_def DIRTY_def)
  have "\<exists>c'. access ''L'' fixed_draw recorder ?l 40 8 False = Inr c' \<and> LRUCount c' = 7 \<and> LRUTime c' = [0, 7]"
    using C4_hit_restamps_lru_not_fifo [OF wf(1) sa(1) h(1), of "''L''" fixed_draw recorder 8 False]
    by (auto simp: demo_def)
  moreover
  have "access ''F'' fixed_draw recorder ?f 40 8 False =
          Inr (?f\<lparr>FIFOCount := 7, read_accesses := 1, bytes_read := 8\<rparr>)"
    using access_hit [OF sa(2), of 40 1 "''F''" fixed_draw recorder 8 False] h(2) [of "''F''"]
    by (simp add: fst_check_tag) (simp add: demo_def)
  then have "\<exists>c'. access ''F'' fixed_draw recorder ?f 40 8 False = Inr c' \<and> FIFOCount c' = 7 \<and> FIFOTime c' = [0, 3]"
    using C4_hit_restamps_lru_not_fifo [OF wf(2) sa(2) h(2), of "''F''" fixed_draw recorder 8 False]
    by (auto simp: demo_def)
  ultimately show ?thesis by blast
qed

text \<open>
  Claim C5, as stated, fails on the code: with three ways the fourth tag D already evicts
  A, so the repeated access to A is a miss, and it evicts B. With lines 0 to 4 for A to E
  (addresses 0, 8, 16, 24, 32) the set holds D, A, C after the five accesses, the victim
  of the access to E is the tag of C, not of B, and the set then holds D, A, E.
\<close>

theorem C5_lru_order_counterexample:
  "(case init 1 3 8 (0::nat) of
      Inl e \<Rightarrow> Inl e
    | Inr c \<Rightarrow>
        (case run_trace ''L'' fixed_draw no_handler c
                [(0, 8, False), (8, 8, False), (16, 8, False), (24, 8, False), (0, 8, False)] of
           Inl e \<Rightarrow> Inl e
         | Inr c' \<Rightarrow>
             Inr (tags c', fst (select_victim ''L'' fixed_draw c' 32),
                  map_sum id tags (access ''L'' fixed_draw no_handler c' 32 8 False))))
   = Inr ([3 OR VALID, 0 OR VALID, 2 OR VALID], 2 OR VALID, Inr [3 OR VALID, 0 OR VALID, 4 OR VALID]) \<and>
   (2 OR VALID :: 64 word) \<noteq> 1 OR VALID"
  unfolding init_1_3_8 by (simp add: eval_defs)
text \<open>
  Claim C5, amended. Any geometry that construction accepts, with three ways, the freshly
  constructed state, policy L, and five addresses A to E of one set on pairwise different
  lines. After loads of A, B, C, D the ways of the set hold D, B, C (D has evicted A); the
  repeated load of A is the fifth miss and evicts B, the least recently touched line, so
  the set holds D, A, C; the load of E then selects the tag of C as the victim and leaves
  D, A, E: A is not evicted.
\<close>

theorem C5_lru_order:
  fixes g :: 'g and hacc :: "'h \<Rightarrow> 64 word \<Rightarrow> 64 word \<Rightarrow> bool \<Rightarrow> fault + 'h"
    and a b c d e :: "64 word" and c0 :: "('g, 'h) cache_sim"
  assumes geo: "init s 3 l g = Inr c0" "s * 3 < 2 ^ 64" "l < 2 ^ 64"
    and same: "idx_of c0 b = idx_of c0 a" "idx_of c0 c = idx_of c0 a" "idx_of c0 d = idx_of c0 a"
      "idx_of c0 e = idx_of c0 a"
    and dist: "distinct [drop_bit (idx_shift c0) a, drop_bit (idx_shift c0) b, drop_bit (idx_shift c0) c,
                 drop_bit (idx_shift c0) d, drop_bit (idx_shift c0) e]"
  shows "(case run_trace ''L'' nxt hacc c0 [(a, n1, False), (b, n2, False), (c, n3, False), (d, n4, False)] of
           Inl x \<Rightarrow> Inl x
         | Inr c4 \<Rightarrow>
             (case access ''L'' nxt hacc c4 a n5 False of
                Inl x \<Rightarrow> Inl x
              | Inr c5 \<Rightarrow>
                  (case access ''L'' nxt hacc c5 e n6 False of
                     Inl x \<Rightarrow> Inl x
                   | Inr c6 \<Rightarrow>
                       Inr (map (\<lambda>j. tags c4 ! (idx_of c0 a * 3 + j)) [0, 1, 2], read_misses c5,
                            map (\<lambda>j. tags c5 ! (idx_of c0 a * 3 + j)) [0, 1, 2],
                            fst (select_victim ''L'' nxt c5 e), read_misses c6,
                            map (\<lambda>j. tags c6 ! (idx_of c0 a * 3 + j)) [0, 1, 2]))))
   = Inr ([tag_of c0 d, tag_of c0 b, tag_of c0 c], 5,
          [tag_of c0 d, tag_of c0 a, tag_of c0 c], tag_of c0 c, 6,
          [tag_of c0 d, tag_of c0 a, tag_of c0 e])"
proof -
  obtain k where k: "3 \<le> k" "k < 64" "l = 2 ^ k"
    and c0: "c0 = \<lparr> sets = s, ways = 3, linesz = l, idx_shift = k,
                  tags = replicate (s * 3) 0, fa_tags = None, LRUCount = 0, FIFOCount = 0,
                  LRUTime = replicate (s * 3) 0, FIFOTime = replicate (s * 3) 0,
                  read_accesses = 0, read_misses = 0, bytes_read = 0,
                  write_accesses = 0, write_misses = 0, bytes_written = 0,
                  writebacks = 0, lfsr = g, miss_handler = None \<rparr>"
    using init_valid [OF geo] by blast
  have wf0: "wf c0" using init_wf [OF geo(1) _ geo(2,3)] by simp
  define i where "i = idx_of c0 a"
  have "i < sets c0"
    unfolding i_def using wf0 slot_in_range [of c0 0 a] by (auto simp: wf_def idx_of_less)
  then have i: "i < s" by (simp add: c0)
  have ix: "unat (drop_bit k a AND (of_nat s - 1)) = i" "unat (drop_bit k b AND (of_nat s - 1)) = i"
    "unat (drop_bit k c AND (of_nat s - 1)) = i" "unat (drop_bit k d AND (of_nat s - 1)) = i"
    "unat (drop_bit k e AND (of_nat s - 1)) = i"
    using same by (auto simp: i_def idx_of_def c0)
  have bnd: "i * 3 < s * 3" "Suc (i * 3) < s * 3" "Suc (Suc (i * 3)) < s * 3"
    using i by simp_all
  have ne: "drop_bit k a \<noteq> drop_bit k b" "drop_bit k a \<noteq> drop_bit k c" "drop_bit k a \<noteq> drop_bit k d"
    "drop_bit k a \<noteq> drop_bit k e" "drop_bit k b \<noteq> drop_bit k c" "drop_bit k b \<noteq> drop_bit k d"
    "drop_bit k b \<noteq> drop_bit k e" "drop_bit k c \<noteq> drop_bit k d" "drop_bit k c \<noteq> drop_bit k e"
    "drop_bit k d \<noteq> drop_bit k e"
    using dist by (auto simp: c0)
  note ne' = ne [symmetric]
  have clean: "(drop_bit k x OR VALID) AND NOT DIRTY = drop_bit k x OR VALID" for x :: "64 word"
    using k by (intro line_tag_clean) simp
  have eq: "(drop_bit k x OR VALID = drop_bit k y OR VALID) \<longleftrightarrow> drop_bit k x = drop_bit k y" for x y :: "64 word"
    using k by (intro line_tag_eq_iff) simp
  have nd: "(drop_bit k x OR VALID) AND (VALID OR DIRTY) \<noteq> VALID OR DIRTY" for x :: "64 word"
    using k by (intro line_tag_not_dirty) simp
  have z: "(0 :: 64 word) \<noteq> VALID OR DIRTY"
    using flags_nonzero by (rule not_sym)
  show ?thesis
    unfolding i_def [symmetric]
    by (simp add: c0 access_def count_access_def virt_check_tag_def check_tag_def
          select_victim_def LRU_def write_back_def call_handler_def idx_of_def tag_of_def Let_def
          first_way.simps oldest_way.simps clean eq nd z line_tag_nonzero ne ne' ix bnd i)
qed

theorem C5_lru_order_witness:
  "\<exists>c0 :: (nat, unit) cache_sim. init 4 3 8 0 = Inr c0 \<and>
     (case run_trace ''L'' fixed_draw no_handler c0
             [(8, 8, False), (40, 8, False), (72, 8, False), (104, 8, False)] of
        Inl x \<Rightarrow> Inl x
      | Inr c4 \<Rightarrow>
          (case access ''L'' fixed_draw no_handler c4 8 8 False of
             Inl x \<Rightarrow> Inl x
           | Inr c5 \<Rightarrow>
               (case access ''L'' fixed_draw no_handler c5 136 8 False of
                  Inl x \<Rightarrow> Inl x
                | Inr c6 \<Rightarrow>
                    Inr (map (\<lambda>j. tags c4 ! (3 + j)) [0, 1, 2], read_misses c5,
                         map (\<lambda>j. tags c5 ! (3 + j)) [0, 1, 2],
                         fst (select_victim ''L'' fixed_draw c5 136), read_misses c6,
                         map (\<lambda>j. tags c6 ! (3 + j)) [0, 1, 2]))))
     = Inr ([13 OR VALID, 5 OR VALID, 9 OR VALID], 5,
            [13 OR VALID, 1 OR VALID, 9 OR VALID], 9 OR VALID, 6,
            [13 OR VALID, 1 OR VALID, 17 OR VALID])"
proof -
  define c0 :: "(nat, unit) cache_sim" where "c0 =
     \<lparr> sets = 4, ways = 3, linesz = 8, idx_shift = 3,
       tags = replicate 12 0, fa_tags = None, LRUCount = 0, FIFOCount = 0,
       LRUTime = replicate 12 0, FIFOTime = replicate 12 0,
       read_accesses = 0, read_misses = 0, bytes_read = 0,
       write_accesses = 0, write_misses = 0, bytes_written = 0,
       writebacks = 0, lfsr = 0, miss_handler = None \<rparr>"
  have i: "init 4 3 8 0 = Inr c0"
    using shift_loop_pow2 [of 3 0] by (simp add: init_unfold c0_def)
  have b: "(4::nat) * 3 < 2 ^ 64" "(8::nat) < 2 ^ 64" by simp_all
  have ix: "idx_of c0 8 = 1" "idx_of c0 40 = 1" "idx_of c0 72 = 1" "idx_of c0 104 = 1" "idx_of c0 136 = 1"
    by (simp_all add: idx_of_def c0_def)
  have same: "idx_of c0 40 = idx_of c0 8" "idx_of c0 72 = idx_of c0 8" "idx_of c0 104 = idx_of c0 8"
    "idx_of c0 136 = idx_of c0 8"
    by (simp_all add: ix)
  have d: "distinct [drop_bit (idx_shift c0) (8 :: 64 word), drop_bit (idx_shift c0) 40,
             drop_bit (idx_shift c0) 72, drop_bit (idx_shift c0) 104, drop_bit (idx_shift c0) 136]"
    by (simp add: c0_def)
  have t: "tag_of c0 8 = 1 OR VALID" "tag_of c0 40 = 5 OR VALID" "tag_of c0 72 = 9 OR VALID"
    "tag_of c0 104 = 13 OR VALID" "tag_of c0 136 = 17 OR VALID"
    by (simp_all add: tag_of_def c0_def)
  show ?thesis
    using i C5_lru_order [OF i b same d, where nxt = fixed_draw and hacc = no_handler
        and ?n1.0 = 8 and ?n2.0 = 8 and ?n3.0 = 8 and ?n4.0 = 8 and ?n5.0 = 8 and ?n6.0 = 8]
    unfolding ix t by (intro exI [of _ c0]) (simp cong: sum.case_cong)
qed

text \<open>
  Claim C6. A model constructed with one set, two ways and lines of 8 bytes has no next
  level; under the policy L the four loads at addresses 0, 8, 0, 16 (of any sizes) are
  a miss, a miss, a hit and a miss, so the statistics show 4 read accesses and 3 read
  misses, no write, and the miss rate is 75.
\<close>

theorem C6_miss_rate_scenario:
  "(case init 1 2 8 g of
      Inl e \<Rightarrow> Inl e
    | Inr c \<Rightarrow>
        (case (hit_sequence ''L'' nxt hacc c [(0, b1, False), (8, b2, False), (0, b3, False), (16, b4, False)],
               run_trace ''L'' nxt hacc c [(0, b1, False), (8, b2, False), (0, b3, False), (16, b4, False)]) of
           (Inr hs, Inr c') \<Rightarrow>
             Inr (miss_handler c, hs, read_accesses c', read_misses c', write_accesses c', write_misses c',
                  miss_rate c')
         | (Inl e, _) \<Rightarrow> Inl e
         | (_, Inl e) \<Rightarrow> Inl e))
   = Inr (None, [False, False, True, False], 4, 3, 0, 0, Some 75)"
  unfolding init_1_2_8 by (simp add: eval_defs miss_rate_def)

text \<open>
  Claim C7, as stated, lists what a hit may change: the dirty mark of the hit slot for a
  store, the stamp of the hit slot under LRU, and the access and byte counters. The code
  also increments the counter of the active policy first, on a hit as on a miss: a load
  that hits under FIFO moves \<open>FIFOCount\<close> from 0 to 1.
\<close>

theorem C7_hit_frame_counterexample:
  "fst (check_tag ''F'' demo 40) = Some (ArrayWay 1) \<and>
   FIFOCount demo = 0 \<and>
   map_sum id FIFOCount (access ''F'' fixed_draw recorder demo 40 8 False) = Inr 1"
proof -
  have h: "hit_way demo 40 = Some 1"
    by (simp add: hit_way_def idx_of_def tag_of_def demo_def first_way.simps VALID_def DIRTY_def)
  have sa: "fa_tags demo = None" by (simp add: demo_def)
  show ?thesis
    by (simp add: fst_check_tag h access_hit [OF sa h]) (simp add: demo_def)
qed

text \<open>
  Claim C7, amended. On the set-associative model a hit at slot \<open>j\<close> returns the state in
  which the counter of the active policy (\<open>LRUCount\<close> under L, \<open>FIFOCount\<close> under F) is
  one more, the access counter and the byte counter of the direction have grown, the stamp
  of slot \<open>j\<close> is the new counter value under L, and slot \<open>j\<close> carries the dirty flag after
  a store. Nothing else changes: no miss counter, no write-back counter, no other slot, the
  generator and the next level are as before, and a load leaves the line resident in the
  same slot.
\<close>

theorem C7_hit_frame:
  fixes c :: "('g, 'h) cache_sim"
  assumes "wf c" "fa_tags c = None" "fst (check_tag policy c addr) = Some (ArrayWay j)"
  shows "access policy nxt hacc c addr bytes store =
     Inr (c\<lparr>LRUCount := (if policy = ''L'' then LRUCount c + 1 else LRUCount c),
            FIFOCount := (if policy = ''F'' then FIFOCount c + 1 else FIFOCount c),
            LRUTime := (if policy = ''L'' then (LRUTime c)[j := LRUCount c + 1] else LRUTime c),
            tags := (if store then (tags c)[j := tags c ! j OR DIRTY] else tags c),
            read_accesses := (if store then read_accesses c else read_accesses c + 1),
            bytes_read := (if store then bytes_read c else bytes_read c + bytes),
            write_accesses := (if store then write_accesses c + 1 else write_accesses c),
            bytes_written := (if store then bytes_written c + bytes else bytes_written c)\<rparr>) \<and>
     j < length (tags c) \<and>
     (\<forall>c'. access policy nxt hacc c addr bytes store = Inr c' \<longrightarrow>
        read_misses c' = read_misses c \<and> write_misses c' = write_misses c \<and>
        writebacks c' = writebacks c \<and> miss_handler c' = miss_handler c \<and> lfsr c' = lfsr c \<and>
        fst (check_tag policy c' addr) = Some (ArrayWay j))"
proof -
  have h: "hit_way c addr = Some j"
    using assms(3) by (auto simp: fst_check_tag)
  note eq = access_hit [OF assms(2) h, of policy nxt hacc bytes store]
  obtain i where i: "i < ways c" "j = idx_of c addr * ways c + i"
    "tag_of c addr = tags c ! j AND NOT DIRTY"
    using hit_way_SomeD [OF h] by blast
  have len: "j < length (tags c)"
    using assms(1) i slot_in_range [of c i addr] by (simp add: wf_def)
  have stay: "hit_way c' addr = Some j"
    if "sets c' = sets c" "ways c' = ways c" "idx_shift c' = idx_shift c"
      "tags c' = tags c \<or> tags c' = (tags c)[j := tags c ! j OR DIRTY]" for c' :: "('g, 'h) cache_sim"
  proof -
    have g: "idx_of c' addr = idx_of c addr" "tag_of c' addr = tag_of c addr"
      using that by (simp_all add: idx_of_def tag_of_def)
    have "(tag_of c addr = tags c' ! (idx_of c addr * ways c + k) AND NOT DIRTY) =
          (tag_of c addr = tags c ! (idx_of c addr * ways c + k) AND NOT DIRTY)" if "k < ways c" for k
    proof -
      have "tags c' ! n AND NOT DIRTY = tags c ! n AND NOT DIRTY" for n
      proof (cases "tags c' = tags c")
        case True
        then show ?thesis by simp
      next
        case False
        then have t: "tags c' = (tags c)[j := tags c ! j OR DIRTY]" using \<open>_ \<or> _\<close> by blast
        have "(x OR DIRTY) AND NOT DIRTY = x AND NOT DIRTY" for x :: "64 word"
          by (rule bit_word_eqI) (auto simp: bit_simps)
        then show ?thesis
          using len by (cases "n = j") (simp_all add: t)
      qed
      then show ?thesis by simp
    qed
    then have "first_way (\<lambda>k. tag_of c addr = tags c' ! (idx_of c addr * ways c + k) AND NOT DIRTY) (ways c) 0 =
               first_way (\<lambda>k. tag_of c addr = tags c ! (idx_of c addr * ways c + k) AND NOT DIRTY) (ways c) 0"
      by (intro first_way_cong_less) simp
    then have "hit_way c' addr = hit_way c addr"
      using g that(2) by (simp add: hit_way_def)
    then show ?thesis using h by simp
  qed
  have "read_misses c' = read_misses c \<and> write_misses c' = write_misses c \<and>
        writebacks c' = writebacks c \<and> miss_handler c' = miss_handler c \<and> lfsr c' = lfsr c \<and>
        fst (check_tag policy c' addr) = Some (ArrayWay j)"
    if "access policy nxt hacc c addr bytes store = Inr c'" for c'
  proof -
    have c': "c' = c\<lparr>LRUCount := (if policy = ''L'' then LRUCount c + 1 else LRUCount c),
            FIFOCount := (if policy = ''F'' then FIFOCount c + 1 else FIFOCount c),
            LRUTime := (if policy = ''L'' then (LRUTime c)[j := LRUCount c + 1] else LRUTime c),
            tags := (if store then (tags c)[j := tags c ! j OR DIRTY] else tags c),
            read_accesses := (if store then read_accesses c else read_accesses c + 1),
            bytes_read := (if store then bytes_read c else bytes_read c + bytes),
            write_accesses := (if store then write_accesses c + 1 else write_accesses c),
            bytes_written := (if store then bytes_written c + bytes else bytes_written c)\<rparr>"
      using that eq by simp
    have "hit_way c' addr = Some j"
      by (rule stay) (simp_all add: c')
    then show ?thesis
      by (simp add: fst_check_tag) (simp add: c')
  qed
  with eq len show ?thesis by blast
qed

theorem C7_hit_frame_witness:
  "access ''L'' fixed_draw recorder demo 40 8 False =
     Inr (demo\<lparr>LRUCount := 1, LRUTime := [0, 1], read_accesses := 1, bytes_read := 8\<rparr>) \<and>
   access ''F'' fixed_draw recorder demo 40 8 True =
     Inr (demo\<lparr>FIFOCount := 1, write_accesses := 2, bytes_written := 16\<rparr>)"
proof -
  have wf: "wf demo" by (simp add: wf_def demo_def)
  have sa: "fa_tags demo = None" by (simp add: demo_def)
  have h: "fst (check_tag p demo 40) = Some (ArrayWay 1)" for p
    by (simp add: fst_check_tag hit_way_def idx_of_def tag_of_def demo_def first_way.simps VALID_def DIRTY_def)
  show ?thesis
    using C7_hit_frame [OF wf sa h, of "''L''" fixed_draw recorder 8 False]
      C7_hit_frame [OF wf sa h, of "''F''" fixed_draw recorder 8 True]
    by (simp add: demo_def VALID_def DIRTY_def)
qed

text \<open>
  Claim C8. Under the random policy on the set-associative model the way is the draw of
  the generator modulo \<open>ways\<close>, whatever the slots of the set hold: the victim is the tag
  word of that way, the new tag is stored there and the generator advances. The way is
  inside the set.
\<close>

theorem C8_random_way_is_draw_mod_ways:
  fixes c :: "('g, 'h) cache_sim"
  assumes "wf c" "fa_tags c = None" "nxt (lfsr c) = (r, g)"
  shows "select_victim ''R'' nxt c addr =
           (tags c ! (idx_of c addr * ways c + r mod ways c),
            c\<lparr>lfsr := g,
               tags := (tags c)[idx_of c addr * ways c + r mod ways c := drop_bit (idx_shift c) addr OR VALID]\<rparr>) \<and>
         r mod ways c < ways c \<and>
         idx_of c addr * ways c + r mod ways c < length (tags c)"
proof -
  have w: "r mod ways c < ways c"
    using assms(1) by (simp add: wf_def)
  then have "idx_of c addr * ways c + r mod ways c < length (tags c)"
    using assms(1) slot_in_range [of c "r mod ways c" addr] by (simp add: wf_def)
  with w show ?thesis
    using assms(2,3)
    by (simp add: select_victim_def virt_victimize_def victimize_def Let_def tag_of_def)
qed

theorem C8_random_way_witness:
  "select_victim ''R'' fixed_draw demo 0 =
     (5 OR VALID OR DIRTY, demo\<lparr>tags := [0, VALID]\<rparr>) \<and>
   select_victim ''R'' fixed_draw (demo\<lparr>lfsr := 0\<rparr>) 0 =
     (0, demo\<lparr>lfsr := 0, tags := [VALID, 5 OR VALID OR DIRTY]\<rparr>)"
proof -
  have wf: "wf demo" "wf (demo\<lparr>lfsr := 0\<rparr>)" by (simp_all add: wf_def demo_def)
  have sa: "fa_tags demo = None" "fa_tags (demo\<lparr>lfsr := 0\<rparr>) = None" by (simp_all add: demo_def)
  have d: "fixed_draw (lfsr demo) = (1, 1)" "fixed_draw (lfsr (demo\<lparr>lfsr := 0\<rparr>)) = (0, 0)"
    by (simp_all add: fixed_draw_def demo_def)
  show ?thesis
    using C8_random_way_is_draw_mod_ways [where nxt = fixed_draw and r = 1 and g = 1 and addr = 0, OF wf(1) sa(1) d(1)]
      C8_random_way_is_draw_mod_ways [where nxt = fixed_draw and r = 0 and g = 0 and addr = 0, OF wf(2) sa(2) d(2)]
    by (simp add: demo_def idx_of_def)
qed

text \<open>
  Claim C9 says that construction succeeds for every valid geometry. The number of ways is
  not tested, and the three arrays have \<^verbatim>\<open>sets*ways\<close> elements: with 2 sets and
  \<open>2^62\<close> ways, and with the configuration \<^verbatim>\<open>1:-1:8\<close>, whose number of ways converts
  to \<open>2^64 - 1\<close>, the sizes of the arrays in bytes cannot be represented, the first
  \<^verbatim>\<open>new\<close> throws on every host, and no object is returned.
\<close>

theorem C9_construction_counterexample:
  "(2::nat) = 2 ^ 1 \<and> (1::nat) = 2 ^ 0 \<and> (8::nat) = 2 ^ 3 \<and>
   init 2 (2 ^ 62) 8 (0::nat) = (Inl AllocFailed :: fault + (nat, unit) cache_sim) \<and>
   construct 1 (2 ^ 64 - 1) 8 (0::nat) = (Inl AllocFailed :: fault + (nat, unit) cache_sim)"
  by (simp add: init_unfold construct_def fa_init_def)

text \<open>
  Claim C9, amended. Construction runs \<^verbatim>\<open>init\<close>. When the number of sets is not a power
  of two (zero included), or the line size is below 8 or not a power of two, the result is
  the fault of \<^verbatim>\<open>help()\<close>, the usage text and exit status 1, and no object, whatever the
  host would grant. Otherwise, with \<open>n\<close> the 64-bit product of sets and ways: when
  \<open>8 * n\<close> bytes can be represented and the host grants the three arrays, an object is
  returned with the given geometry, the line size \<open>2 ^ idx_shift\<close>, all statistics and
  both policy counters zero, \<open>n\<close> tag slots and stamps, all zero, and no next level; when
  not, an allocation throws and there is no object. Every object that \<^verbatim>\<open>init\<close> or
  \<^verbatim>\<open>construct\<close> returns on a host that grants every request is of that form.
\<close>

theorem C9_construction:
  fixes g :: 'g and grant :: "nat \<Rightarrow> nat \<Rightarrow> bool"
  shows "(\<not> (\<exists>k. s = 2 ^ k) \<or> l < 8 \<or> \<not> (\<exists>k. l = 2 ^ k) \<longrightarrow>
            init_alloc grant s w l g = (Inl help_exit :: fault + ('g, 'h) cache_sim) \<and>
            init s w l g = (Inl help_exit :: fault + ('g, 'h) cache_sim) \<and>
            construct s w l g = (Inl help_exit :: fault + ('g, 'h) cache_sim)) \<and>
         ((\<exists>k. s = 2 ^ k) \<and> 8 \<le> l \<and> (\<exists>k. l = 2 ^ k) \<longrightarrow>
            (let n = unat (of_nat s * of_nat w :: 64 word) in
               if n * 8 < 2 ^ 64 \<and> grant 0 (n * 4) \<and> grant 1 (n * 4) \<and> grant 2 (n * 8)
               then \<exists>c :: ('g, 'h) cache_sim. init_alloc grant s w l g = Inr c \<and>
                 sets c = s \<and> ways c = w \<and> linesz c = l \<and> linesz c = 2 ^ idx_shift c \<and>
                 LRUCount c = 0 \<and> FIFOCount c = 0 \<and>
                 read_accesses c = 0 \<and> read_misses c = 0 \<and> bytes_read c = 0 \<and>
                 write_accesses c = 0 \<and> write_misses c = 0 \<and> bytes_written c = 0 \<and>
                 writebacks c = 0 \<and>
                 tags c = replicate n 0 \<and> LRUTime c = replicate n 0 \<and>
                 FIFOTime c = replicate n 0 \<and> fa_tags c = None \<and> miss_handler c = None
               else init_alloc grant s w l g = (Inl AllocFailed :: fault + ('g, 'h) cache_sim)) \<and>
            (\<forall>c :: ('g, 'h) cache_sim. init s w l g = Inr c \<or> construct s w l g = Inr c \<longrightarrow>
                 sets c = s \<and> ways c = w \<and> linesz c = l \<and> linesz c = 2 ^ idx_shift c \<and>
                 LRUCount c = 0 \<and> FIFOCount c = 0 \<and>
                 read_accesses c = 0 \<and> read_misses c = 0 \<and> bytes_read c = 0 \<and>
                 write_accesses c = 0 \<and> write_misses c = 0 \<and> bytes_written c = 0 \<and>
                 writebacks c = 0 \<and>
                 tags c = replicate (unat (of_nat s * of_nat w :: 64 word)) 0 \<and>
                 LRUTime c = replicate (unat (of_nat s * of_nat w :: 64 word)) 0 \<and>
                 FIFOTime c = replicate (unat (of_nat s * of_nat w :: 64 word)) 0 \<and>
                 (fa_tags c = None \<or> fa_tags c = Some []) \<and>
                 miss_handler c = None))"
proof -
  have ps: "(s = 0 \<or> s AND (s - 1) \<noteq> 0) \<longleftrightarrow> \<not> (\<exists>k. s = 2 ^ k)"
    using and_pred_eq_0_iff [of s] by auto
  have pl: "(l AND (l - 1) \<noteq> 0) \<longleftrightarrow> l \<noteq> 0 \<and> \<not> (\<exists>k. l = 2 ^ k)"
    using and_pred_eq_0_iff [of l] by auto
  have four: "2 ^ 64 \<le> n * 8" if "2 ^ 64 \<le> n * 4" for n :: nat
    using that by linarith
  show ?thesis
  proof (cases "\<not> (\<exists>k. s = 2 ^ k) \<or> l < 8 \<or> \<not> (\<exists>k. l = 2 ^ k)")
    case True
    then have bad: "(s = 0 \<or> s AND (s - 1) \<noteq> 0) \<or> (l < 8 \<or> l AND (l - 1) \<noteq> 0)"
      using ps pl by auto
    then have a: "init_alloc grant s w l g = (Inl help_exit :: fault + ('g, 'h) cache_sim)"
      by (auto simp: init_alloc_def)
    from bad have i: "init s w l g = (Inl help_exit :: fault + ('g, 'h) cache_sim)"
      by (auto simp: init_unfold)
    have "(1::nat) AND (1 - 1) = 0" by simp
    then have "l < 8 \<or> l AND (l - 1) \<noteq> 0" if "s = 1"
      using bad that by auto
    then have "init 1 w l g = (Inl help_exit :: fault + ('g, 'h) cache_sim)" if "s = 1"
      using that by (auto simp: init_unfold)
    then have "construct s w l g = (Inl help_exit :: fault + ('g, 'h) cache_sim)"
      using i by (auto simp: construct_def fa_init_def)
    with a i True show ?thesis by auto
  next
    case False
    then have ok: "\<not> (s = 0 \<or> s AND (s - 1) \<noteq> 0)" "\<not> (l < 8 \<or> l AND (l - 1) \<noteq> 0)"
      using ps pl by auto
    from False obtain k where k: "l = 2 ^ k" by auto
    have sh: "shift_loop l 0 = k" "l = 2 ^ k"
      using k shift_loop_pow2 [of k 0] by simp_all
    have one: "(let n = unat (of_nat s * of_nat w :: 64 word) in
               if n * 8 < 2 ^ 64 \<and> grant 0 (n * 4) \<and> grant 1 (n * 4) \<and> grant 2 (n * 8)
               then \<exists>c :: ('g, 'h) cache_sim. init_alloc grant s w l g = Inr c \<and>
                 sets c = s \<and> ways c = w \<and> linesz c = l \<and> linesz c = 2 ^ idx_shift c \<and>
                 LRUCount c = 0 \<and> FIFOCount c = 0 \<and>
                 read_accesses c = 0 \<and> read_misses c = 0 \<and> bytes_read c = 0 \<and>
                 write_accesses c = 0 \<and> write_misses c = 0 \<and> bytes_written c = 0 \<and>
                 writebacks c = 0 \<and>
                 tags c = replicate n 0 \<and> LRUTime c = replicate n 0 \<and>
                 FIFOTime c = replicate n 0 \<and> fa_tags c = None \<and> miss_handler c = None
               else init_alloc grant s w l g = (Inl AllocFailed :: fault + ('g, 'h) cache_sim))"
      using ok sh four [of "unat (of_nat s * of_nat w :: 64 word)"]
      by (auto simp: init_alloc_def new_array_def Let_def)
    have two: "\<forall>c :: ('g, 'h) cache_sim. init s w l g = Inr c \<or> construct s w l g = Inr c \<longrightarrow>
                 sets c = s \<and> ways c = w \<and> linesz c = l \<and> linesz c = 2 ^ idx_shift c \<and>
                 LRUCount c = 0 \<and> FIFOCount c = 0 \<and>
                 read_accesses c = 0 \<and> read_misses c = 0 \<and> bytes_read c = 0 \<and>
                 write_accesses c = 0 \<and> write_misses c = 0 \<and> bytes_written c = 0 \<and>
                 writebacks c = 0 \<and>
                 tags c = replicate (unat (of_nat s * of_nat w :: 64 word)) 0 \<and>
                 LRUTime c = replicate (unat (of_nat s * of_nat w :: 64 word)) 0 \<and>
                 FIFOTime c = replicate (unat (of_nat s * of_nat w :: 64 word)) 0 \<and>
                 (fa_tags c = None \<or> fa_tags c = Some []) \<and>
                 miss_handler c = None"
      using ok sh by (auto simp: init_unfold construct_def fa_init_def split: if_splits)
    from False one two show ?thesis by blast
  qed
qed

theorem C9_construction_witness:
  "init_alloc (\<lambda>i b. b \<le> 64) 3 2 8 (0::nat) = (Inl help_exit :: fault + (nat, unit) cache_sim) \<and>
   init 4 2 4 (0::nat) = (Inl help_exit :: fault + (nat, unit) cache_sim) \<and>
   init 4 2 24 (0::nat) = (Inl help_exit :: fault + (nat, unit) cache_sim) \<and>
   construct 0 8 64 (0::nat) = (Inl help_exit :: fault + (nat, unit) cache_sim) \<and>
   (\<exists>c :: (nat, unit) cache_sim. init_alloc (\<lambda>i b. b \<le> 64) 4 2 64 0 = Inr c \<and>
        tags c = replicate 8 0 \<and> idx_shift c = 6 \<and> writebacks c = 0 \<and> miss_handler c = None) \<and>
   init_alloc (\<lambda>i b. b \<le> 64) 4 4 64 (0::nat) = (Inl AllocFailed :: fault + (nat, unit) cache_sim) \<and>
   (\<exists>c :: (nat, unit) cache_sim. construct 1 8 8 0 = Inr c \<and> tags c = replicate 8 0 \<and>
        idx_shift c = 3 \<and> fa_tags c = Some [])"
proof -
  have n3: "\<not> (\<exists>k. (3::nat) = 2 ^ k)" using and_pred_eq_0_iff [of 3] by simp
  have n24: "\<not> (\<exists>k. (24::nat) = 2 ^ k)" using and_pred_eq_0_iff [of 24] by simp
  have n0: "\<not> (\<exists>k. (0::nat) = 2 ^ k)" by simp
  have p1: "\<exists>k. (1::nat) = 2 ^ k" by (rule exI [of _ 0]) simp
  have p4: "\<exists>k. (4::nat) = 2 ^ k" by (rule exI [of _ 2]) simp
  have p8: "\<exists>k. (8::nat) = 2 ^ k" by (rule exI [of _ 3]) simp
  have p64: "\<exists>k. (64::nat) = 2 ^ k" by (rule exI [of _ 6]) simp
  have a: "init_alloc (\<lambda>i b. b \<le> 64) 3 2 8 (0::nat) = (Inl help_exit :: fault + (nat, unit) cache_sim)"
    using C9_construction [of 3 8 "\<lambda>i b. b \<le> 64" 2 "0::nat", where 'h = unit] n3 by blast
  have b: "init 4 2 4 (0::nat) = (Inl help_exit :: fault + (nat, unit) cache_sim)"
    using C9_construction [of 4 4 "\<lambda>i b. True" 2 "0::nat", where 'h = unit] by simp
  have c: "init 4 2 24 (0::nat) = (Inl help_exit :: fault + (nat, unit) cache_sim)"
    using C9_construction [of 4 24 "\<lambda>i b. True" 2 "0::nat", where 'h = unit] n24 by blast
  have d: "construct 0 8 64 (0::nat) = (Inl help_exit :: fault + (nat, unit) cache_sim)"
    using C9_construction [of 0 64 "\<lambda>i b. True" 8 "0::nat", where 'h = unit] n0 by blast
  have ok: "(\<exists>k. (4::nat) = 2 ^ k) \<and> (8::nat) \<le> 64 \<and> (\<exists>k. (64::nat) = 2 ^ k)"
    using p4 p64 by simp
  have ok1: "(\<exists>k. (1::nat) = 2 ^ k) \<and> (8::nat) \<le> 8 \<and> (\<exists>k. (8::nat) = 2 ^ k)"
    using p1 p8 by simp
  have six: "k = 6" if "(64::nat) = 2 ^ k" for k
  proof -
    have "(2::nat) ^ 6 = 2 ^ k" using that by simp
    then show ?thesis by (simp only: power_inject_exp [of 2])
  qed
  have three: "k = 3" if "(8::nat) = 2 ^ k" for k
  proof -
    have "(2::nat) ^ 3 = 2 ^ k" using that by simp
    then show ?thesis by (simp only: power_inject_exp [of 2])
  qed
  note v = C9_construction [of 4 64 "\<lambda>i b. b \<le> 64" 2 "0::nat", where 'h = unit,
      THEN conjunct2, rule_format, OF ok, THEN conjunct1]
  have e: "\<exists>c :: (nat, unit) cache_sim. init_alloc (\<lambda>i b. b \<le> 64) 4 2 64 0 = Inr c \<and>
        tags c = replicate 8 0 \<and> idx_shift c = 6 \<and> writebacks c = 0 \<and> miss_handler c = None"
    using v six by auto
  note u = C9_construction [of 4 64 "\<lambda>i b. b \<le> 64" 4 "0::nat", where 'h = unit,
      THEN conjunct2, rule_format, OF ok, THEN conjunct1]
  have f: "init_alloc (\<lambda>i b. b \<le> 64) 4 4 64 (0::nat) = (Inl AllocFailed :: fault + (nat, unit) cache_sim)"
    using u by simp
  note t = C9_construction [of 1 8 "\<lambda>i b. True" 8 "0::nat", where 'h = unit,
      THEN conjunct2, rule_format, OF ok1, THEN conjunct2]
  have "\<exists>c :: (nat, unit) cache_sim. construct 1 8 8 0 = Inr c \<and> fa_tags c = Some []"
    by (simp add: construct_def fa_init_def init_unfold)
  then obtain c8 :: "(nat, unit) cache_sim" where c8: "construct 1 8 8 0 = Inr c8" "fa_tags c8 = Some []"
    by blast
  have h: "\<exists>c :: (nat, unit) cache_sim. construct 1 8 8 0 = Inr c \<and> tags c = replicate 8 0 \<and>
        idx_shift c = 3 \<and> fa_tags c = Some []"
    using t [rule_format, of c8] c8 three by auto
  from a b c d e f h show ?thesis by blast
qed

text \<open>
  Claim C10. On the set-associative model a store that misses under policy R, L or F is
  said to find, in the lookup made after the victim selection, the line that the selection
  installed, so that \<^verbatim>\<open>*check_tag(addr) |= DIRTY\<close> never dereferences a null pointer.
  This holds for every state with at least one way (\<open>relookup_finds_new_line\<close>). But
  \<^verbatim>\<open>init\<close> tests only the number of sets and the line size, although the usage text of
  \<^verbatim>\<open>help()\<close> asks for a positive number of ways: the configuration \<^verbatim>\<open>4:0:8\<close> is
  accepted, with empty arrays. There the loops over the ways run zero times, nothing the
  lookup can see is installed, and every store, at any address, under L and under F, ends
  in the null dereference.
\<close>

theorem C10_zero_ways_null_deref:
  fixes g :: 'g and hacc :: "'h \<Rightarrow> 64 word \<Rightarrow> 64 word \<Rightarrow> bool \<Rightarrow> fault + 'h"
  shows "(\<exists>c :: ('g, 'h) cache_sim. construct 4 0 8 g = Inr c \<and> ways c = 0 \<and> fa_tags c = None) \<and>
   (case construct 4 0 8 g of
      Inl e \<Rightarrow> Inl e
    | Inr c \<Rightarrow> access ''L'' nxt hacc c addr bytes True) = Inl NullDeref \<and>
   (case construct 4 0 8 g of
      Inl e \<Rightarrow> Inl e
    | Inr c \<Rightarrow> access ''F'' nxt hacc c addr bytes True) = Inl NullDeref"
proof -
  have i: "(construct 4 0 8 g :: fault + ('g, 'h) cache_sim) =
             Inr \<lparr> sets = 4, ways = 0, linesz = 8, idx_shift = 3,
                 tags = [], fa_tags = None, LRUCount = 0, FIFOCount = 0,
                 LRUTime = [], FIFOTime = [],
                 read_accesses = 0, read_misses = 0, bytes_read = 0,
                 write_accesses = 0, write_misses = 0, bytes_written = 0,
                 writebacks = 0, lfsr = g, miss_handler = None \<rparr>"
    using shift_loop_pow2 [of 3 0] by (simp add: construct_def init_unfold)
  show ?thesis
    unfolding i by (simp add: eval_defs)
qed

end
